theory Spec2Isabelle
  imports Complex_Main "HOL-Library.AList"
begin

section \<open>The block graph and the breadth-first solver (navigation.js, data.js)\<close>

text \<open>
  \<^verbatim>\<open>campusGraph\<close> is a plain object literal: block id \<open>\<mapsto>\<close> { neighbour id \<open>\<mapsto>\<close> [road id, ...] }.
  An object is modelled by the list of its own enumerable properties in the order
  \<^verbatim>\<open>Object.entries\<close> yields them, so a neighbour table is an association list and the
  graph is an association list of neighbour tables.
\<close>

type_synonym neighbours = "(string \<times> string list) list"
type_synonym block_graph = "(string \<times> neighbours) list"

text \<open>
  A property read \<^verbatim>\<open>campusGraph[k]\<close> that finds no own property continues along the
  prototype chain. The prototype of an object literal is \<^verbatim>\<open>Object.prototype\<close>, whose
  members are all functions except \<^verbatim>\<open>__proto__\<close>, which yields \<^verbatim>\<open>Object.prototype\<close>
  itself. Every one of these values is truthy and has no enumerable own property.
\<close>

definition object_prototype_names :: "string list" where
  "object_prototype_names =
     [''constructor'', ''hasOwnProperty'', ''isPrototypeOf'', ''propertyIsEnumerable'',
      ''toLocaleString'', ''toString'', ''valueOf'', ''__proto__'',
      ''__defineGetter__'', ''__defineSetter__'', ''__lookupGetter__'', ''__lookupSetter__'']"

text \<open>\<^verbatim>\<open>!campusGraph[k]\<close> is false exactly when the read yields a (truthy) value.\<close>

definition has_entry :: "block_graph \<Rightarrow> string \<Rightarrow> bool" where
  "has_entry g k \<longleftrightarrow> k \<in> set object_prototype_names \<or> map_of g k \<noteq> None"

text \<open>
  \<^verbatim>\<open>Object.entries(campusGraph[k])\<close> for a truthy read: the neighbour table of an own
  property, and the empty list for an inherited member.
\<close>

definition entries :: "block_graph \<Rightarrow> string \<Rightarrow> neighbours" where
  "entries g k = (case map_of g k of Some ns \<Rightarrow> ns | None \<Rightarrow> [])"

record bfs_path =
  roads :: "string list"
  nodes :: "string list"

text \<open>A queue entry is the triple \<^verbatim>\<open>[current_node_id, roads so far, nodes so far]\<close>.\<close>

type_synonym bfs_entry = "string \<times> string list \<times> string list"

text \<open>
  The inner \<^verbatim>\<open>for (const [neighborId, roads] of Object.entries(neighbors))\<close> loop: every
  neighbour not yet in \<^verbatim>\<open>visited\<close> is marked and appended to the queue with the extended
  road and node lists.
\<close>

fun visit_neighbours ::
  "string list \<Rightarrow> string list \<Rightarrow> neighbours \<Rightarrow> bfs_entry list \<times> string set
     \<Rightarrow> bfs_entry list \<times> string set" where
  "visit_neighbours path visitedNodes [] (queue, visited) = (queue, visited)"
| "visit_neighbours path visitedNodes ((neighborId, rds) # rest) (queue, visited) =
     (if neighborId \<notin> visited
      then visit_neighbours path visitedNodes rest
             (queue @ [(neighborId, path @ rds, visitedNodes @ [neighborId])],
              insert neighborId visited)
      else visit_neighbours path visitedNodes rest (queue, visited))"

text \<open>All neighbour ids mentioned anywhere in the graph (a finite set).\<close>

definition neighbour_ids :: "block_graph \<Rightarrow> string set" where
  "neighbour_ids g = (\<Union>ns \<in> snd ` set g. fst ` set ns)"

lemma finite_neighbour_ids: "finite (neighbour_ids g)"
  by (simp add: neighbour_ids_def)

lemma entries_subset: "fst ` set (entries g k) \<subseteq> neighbour_ids g"
proof (cases "map_of g k")
  case None
  then show ?thesis by (simp add: entries_def)
next
  case (Some ns)
  then have "(k, ns) \<in> set g" by (rule map_of_SomeD)
  then have "ns \<in> snd ` set g" by force
  with Some show ?thesis by (auto simp: entries_def neighbour_ids_def)
qed

lemma snd_visit_neighbours:
  "snd (visit_neighbours p vn ns (q, vis)) = vis \<union> fst ` set ns"
proof (induction ns arbitrary: q vis)
  case Nil
  show ?case by simp
next
  case (Cons a ns)
  obtain n rds where a: "a = (n, rds)" by (cases a)
  show ?case unfolding a by (cases "n \<in> vis") (auto simp: Cons.IH)
qed

lemma visit_neighbours_visited:
  "visit_neighbours p vn ns (q, vis) = (q', vis') \<Longrightarrow> vis' = vis \<union> fst ` set ns"
  using snd_visit_neighbours[of p vn ns q vis] by simp

lemma fst_visit_neighbours:
  "fst ` set (fst (visit_neighbours p vn ns (q, vis))) = fst ` set q \<union> (fst ` set ns - vis)"
proof (induction ns arbitrary: q vis)
  case Nil
  show ?case by simp
next
  case (Cons a ns)
  obtain n rds where a: "a = (n, rds)" by (cases a)
  show ?case unfolding a by (cases "n \<in> vis") (auto simp: Cons.IH)
qed

lemma visit_neighbours_queue_nodes:
  "visit_neighbours p vn ns (q, vis) = (q', vis') \<Longrightarrow>
     fst ` set q' = fst ` set q \<union> (fst ` set ns - vis)"
  using fst_visit_neighbours[of p vn ns q vis] by simp

lemma visit_neighbours_unchanged:
  "fst ` set ns \<subseteq> vis \<Longrightarrow> visit_neighbours p vn ns (q, vis) = (q, vis)"
  by (induction ns) auto

lemma visit_neighbours_same:
  assumes "visit_neighbours p vn ns (q, vis) = (q', vis')" and "vis' = vis"
  shows "q' = q"
proof -
  from assms have "fst ` set ns \<subseteq> vis"
    using visit_neighbours_visited[OF assms(1)] by auto
  then have "visit_neighbours p vn ns (q, vis) = (q, vis)"
    by (rule visit_neighbours_unchanged)
  with assms(1) show ?thesis by simp
qed

text \<open>
  The \<^verbatim>\<open>while (queue.length > 0)\<close> loop of \<^verbatim>\<open>findPath\<close>. \<^verbatim>\<open>queue.shift()\<close> takes the head;
  \<^verbatim>\<open>if (!neighbors) continue\<close> skips a node without entry; falling out of the loop
  returns \<^verbatim>\<open>null\<close>.
\<close>

function bfs_loop ::
  "block_graph \<Rightarrow> string \<Rightarrow> bfs_entry list \<Rightarrow> string set \<Rightarrow> bfs_path option" where
  "bfs_loop g endSvgId [] visited = None"
| "bfs_loop g endSvgId ((currentNode, path, visitedNodes) # queue) visited =
     (if currentNode = endSvgId then Some \<lparr>roads = path, nodes = visitedNodes\<rparr>
      else if \<not> has_entry g currentNode then bfs_loop g endSvgId queue visited
      else (case visit_neighbours path visitedNodes (entries g currentNode) (queue, visited) of
              (queue', visited') \<Rightarrow> bfs_loop g endSvgId queue' visited'))"
  by pat_completeness auto

termination
proof (relation "inv_image (less_than <*lex*> less_than)
         (\<lambda>(g, e, q, vis). (card (neighbour_ids g - vis), length q))", goal_cases)
  case 1
  show ?case by (intro wf_inv_image wf_lex_prod wf_less_than)
next
  case (2 g e cur p vn q vis)
  show ?case by simp
next
  case (3 g e cur p vn q vis q' vis')
  then have v: "visit_neighbours p vn (entries g cur) (q, vis) = (q', vis')" by simp
  have vis': "vis' = vis \<union> fst ` set (entries g cur)"
    using v by (rule visit_neighbours_visited)
  show ?case
  proof (cases "vis' = vis")
    case True
    with v have "q' = q" by (rule visit_neighbours_same)
    with True show ?thesis by simp
  next
    case False
    have "neighbour_ids g - vis' \<subset> neighbour_ids g - vis"
      using False vis' entries_subset[of g cur] by auto
    then have "card (neighbour_ids g - vis') < card (neighbour_ids g - vis)"
      by (intro psubset_card_mono) (simp_all add: finite_neighbour_ids)
    then show ?thesis by simp
  qed
qed

text \<open>
  \<^verbatim>\<open>findPath(startSvgId, endSvgId)\<close>. The result pairs what the call writes to the
  console (\<^verbatim>\<open>console.warn\<close>) with the value it returns (\<open>None\<close> is \<^verbatim>\<open>null\<close>).
\<close>

definition findPath :: "block_graph \<Rightarrow> string \<Rightarrow> string \<Rightarrow> string list \<times> bfs_path option" where
  "findPath g startSvgId endSvgId =
     (if startSvgId = endSvgId then ([], Some \<lparr>roads = [], nodes = [startSvgId]\<rparr>)
      else if \<not> has_entry g startSvgId then ([''Node not in graph: '' @ startSvgId], None)
      else ([], bfs_loop g endSvgId [(startSvgId, [], [startSvgId])] {startSvgId}))"

text \<open>
  The graph is directed as written: \<open>bfs_edge g u v\<close> when \<open>v\<close> is listed under \<open>u\<close>, and a
  route from \<open>a\<close> to \<open>b\<close> is a chain of such steps (possibly empty).
\<close>

definition bfs_edge :: "block_graph \<Rightarrow> string \<Rightarrow> string \<Rightarrow> bool" where
  "bfs_edge g u v \<longleftrightarrow> v \<in> fst ` set (entries g u)"

definition route :: "block_graph \<Rightarrow> string \<Rightarrow> string \<Rightarrow> bool" where
  "route g a b \<longleftrightarrow> (bfs_edge g)\<^sup>*\<^sup>* a b"

text \<open>The graph literal of data.js.\<close>

definition campusGraph :: block_graph where
  "campusGraph =
     [
      (''block_main_gate'',
         [(''block_admin'', [''road_gate_to_admin''])]),
      (''block_admin'',
         [(''block_main_gate'', [''road_gate_to_admin'']),
          (''block_library'', [''road_admin_to_library'']),
          (''block_guest_house'', [''road_to_guest_house''])]),
      (''block_guest_house'',
         [(''block_admin'', [''road_to_guest_house''])]),
      (''block_library'',
         [(''block_admin'', [''road_admin_to_library'']),
          (''block_gazebo'', [''road_library_to_gazebo''])]),
      (''block_gazebo'',
         [(''block_library'', [''road_library_to_gazebo'']),
          (''block_ab3'', [''road_gazebo_to_ab3''])]),
      (''block_ab3'',
         [(''block_gazebo'', [''road_gazebo_to_ab3'']),
          (''block_north_square'', [''road_ab3_curve''])]),
      (''block_north_square'',
         [(''block_ab3'', [''road_ab3_curve'']),
          (''block_ab1'', [''road_ab3_to_north_square'', ''road_aavin_to_ab2'']),
          (''block_health_centre'', [''road_health_to_bblock'']),
          (''block_e_hostel'', [''road_aavin'']),
          (''block_dominos'', [''road_aavin'']),
          (''block_vmart'', [''road_aavin_to_ab2'']),
          (''block_sigma'', [''road_aavin_to_ab2''])]),
      (''block_ab1'',
         [(''block_north_square'', [''road_aavin_to_ab2'', ''road_ab3_to_north_square'']),
          (''block_dominos'', [''road_aavin_to_ab2'', ''road_aavin'']),
          (''block_ab2_north'', [''road_ab2_connector_north''])]),
      (''block_dominos'',
         [(''block_north_square'', [''road_aavin'']),
          (''block_ab1'', [''road_aavin'', ''road_aavin_to_ab2'']),
          (''block_e_hostel'', [''road_aavin'', ''road_gazebo_to_ab5'']),
          (''block_health_centre'', [''road_aavin'', ''road_health_to_bblock''])]),
      (''block_e_hostel'',
         [(''block_dominos'', [''road_gazebo_to_ab5'', ''road_aavin'']),
          (''block_north_square'', [''road_aavin'', ''road_ab3_to_north_square''])]),
      (''block_ab5'',
         [(''block_health_centre'', [''road_health_to_bblock''])]),
      (''block_health_centre'',
         [(''block_north_square'', [''road_health_to_bblock'']),
          (''block_dominos'', [''road_health_to_bblock'', ''road_aavin'']),
          (''block_b_hostel'', [''road_central_junction'', ''road_health_to_bblock'']),
          (''block_ab5'', [''road_health_to_bblock''])]),
      (''block_ab2_north'',
         [(''block_ab1'', [''road_ab2_connector_north'']),
          (''block_ab2_south'', [''road_bblock_to_cblock''])]),
      (''block_ab2_south'',
         [(''block_ab2_north'', [''road_bblock_to_cblock'']),
          (''block_e_hostel'', [''road_to_ab5''])]),
      (''block_b_hostel'',
         [(''block_health_centre'', [''road_central_junction''])]),
      (''block_c_hostel'',
         [(''block_health_centre'', [''road_central_junction''])]),
      (''block_d1_hostel'',
         [(''block_health_centre'', [''road_central_junction''])]),
      (''block_d2_hostel'',
         [(''block_health_centre'', [''road_central_junction''])]),
      (''block_vmart'',
         [(''block_north_square'', [''road_aavin_to_ab2''])]),
      (''block_sigma'',
         [(''block_north_square'', [''road_aavin_to_ab2''])])
     ]"

section \<open>Predefined routes and their reverses (data.js)\<close>

text \<open>
  \<^verbatim>\<open>predefinedRoutes\<close> maps a key \<^verbatim>\<open>"from->to"\<close> to a list of road ids; it is again the list of
  the object's properties.
\<close>

type_synonym routes = "(string \<times> string list) list"

text \<open>\<^verbatim>\<open>key.split("->")\<close>, with the piece read so far as first argument.\<close>

fun split_arrow :: "string \<Rightarrow> string \<Rightarrow> string list" where
  "split_arrow piece (c # d # cs) =
     (if c = CHR ''-'' \<and> d = CHR ''>'' then piece # split_arrow [] cs
      else split_arrow (piece @ [c]) (d # cs))"
| "split_arrow piece [c] = [piece @ [c]]"
| "split_arrow piece [] = [piece]"

text \<open>
  \<^verbatim>\<open>const [from, to] = key.split("->")\<close> and the template \<^verbatim>\<open>`${to}->${from}`\<close>; a missing
  \<^verbatim>\<open>to\<close> is \<^verbatim>\<open>undefined\<close> and prints as such.
\<close>

definition reverseKey :: "string \<Rightarrow> string" where
  "reverseKey key =
     (case split_arrow [] key of
        from_part # to_part # _ \<Rightarrow> to_part @ ''->'' @ from_part
      | [from_part] \<Rightarrow> ''undefined->'' @ from_part
      | [] \<Rightarrow> ''undefined->undefined'')"

text \<open>\<^verbatim>\<open>predefinedRoutes[k]\<close> is truthy (an array is, even when empty).\<close>

definition has_route :: "routes \<Rightarrow> string \<Rightarrow> bool" where
  "has_route rs k \<longleftrightarrow> k \<in> set object_prototype_names \<or> map_of rs k \<noteq> None"

text \<open>The object \<^verbatim>\<open>reverseRoutes\<close> at the end of the loop.\<close>

definition reverseRoutes :: "routes \<Rightarrow> routes" where
  "reverseRoutes predefinedRoutes =
     fold (\<lambda>(key, rds) acc.
             if has_route predefinedRoutes (reverseKey key) then acc
             else AList.update (reverseKey key) (rev rds) acc)
          predefinedRoutes []"

text \<open>\<^verbatim>\<open>generateReverseRoutes()\<close>: the table after \<^verbatim>\<open>Object.assign(predefinedRoutes, reverseRoutes)\<close>.\<close>

definition generateReverseRoutes :: "routes \<Rightarrow> routes" where
  "generateReverseRoutes predefinedRoutes =
     fold (\<lambda>(k, v). AList.update k v) (reverseRoutes predefinedRoutes) predefinedRoutes"

section \<open>The weighted solver (pathfinding.ts)\<close>

datatype node_type =
  building | academic | food | sports | service | landmark | junction | auditorium

text \<open>
  \<^verbatim>\<open>GraphNode\<close>: the fields \<^verbatim>\<open>id\<close>, \<^verbatim>\<open>x\<close>, \<^verbatim>\<open>y\<close>, \<^verbatim>\<open>type\<close>, \<^verbatim>\<open>floor\<close> carry a prefix here;
  the optional fields are options.
\<close>

record GraphNode =
  node_id :: string
  name :: string
  node_x :: real
  node_y :: real
  node_type :: node_type
  floor_label :: "string option"
  facts :: "string list option"
  blockId :: "string option"

record GraphEdge =
  edge_from :: string
  edge_to :: string
  weight :: real

record Graph =
  graph_nodes :: "GraphNode list"
  graph_edges :: "GraphEdge list"

record PathResult =
  path :: "string list"
  coordinates :: "(real \<times> real) list"

text \<open>
  Tentative distances are numbers that start at \<^verbatim>\<open>Infinity\<close>. Edge weights and sums are
  modelled as real numbers, an idealisation of the doubles of the code: it is exact for
  sums that a double represents (such as 0 + 3 and 3 + 4), and it leaves out rounding,
  overflow to \<^verbatim>\<open>Infinity\<close> and \<^verbatim>\<open>NaN\<close>. No statement below that quantifies over weights
  depends on it: the general lemmas about the search hold for any arithmetic.
\<close>

datatype number = Finite real | Infinity

fun num_add :: "number \<Rightarrow> real \<Rightarrow> number" where
  "num_add (Finite a) w = Finite (a + w)"
| "num_add Infinity w = Infinity"

fun num_less :: "number \<Rightarrow> number \<Rightarrow> bool" where
  "num_less (Finite a) (Finite b) = (a < b)"
| "num_less (Finite a) Infinity = True"
| "num_less Infinity b = False"

text \<open>
  \<^verbatim>\<open>buildAdjacencyList\<close>: a \<^verbatim>\<open>Map\<close> from node id to the array of \<^verbatim>\<open>{ node, weight }\<close>; each
  edge is pushed under its \<^verbatim>\<open>from\<close> and, reversed, under its \<^verbatim>\<open>to\<close>.
\<close>

type_synonym adjacency = "string \<rightharpoonup> (string \<times> real) list"

definition push_adjacent :: "adjacency \<Rightarrow> string \<Rightarrow> string \<times> real \<Rightarrow> adjacency" where
  "push_adjacent adj k v = (case adj k of None \<Rightarrow> adj(k \<mapsto> [v]) | Some l \<Rightarrow> adj(k \<mapsto> l @ [v]))"

definition buildAdjacencyList :: "GraphEdge list \<Rightarrow> adjacency" where
  "buildAdjacencyList es =
     fold (\<lambda>e adj. push_adjacent (push_adjacent adj (edge_from e) (edge_to e, weight e))
                                   (edge_to e) (edge_from e, weight e))
          es Map.empty"

text \<open>\<^verbatim>\<open>adjacency.get(current.node) || []\<close>\<close>

definition neighbors_of :: "adjacency \<Rightarrow> string \<Rightarrow> (string \<times> real) list" where
  "neighbors_of adj k = (case adj k of None \<Rightarrow> [] | Some l \<Rightarrow> l)"

text \<open>
  The \<^verbatim>\<open>distances\<close> and \<^verbatim>\<open>previous\<close> maps are association lists updated in place
  (\<^verbatim>\<open>Map.set\<close>); the queue is the array of \<^verbatim>\<open>{ node, distance }\<close>.
\<close>

type_synonym distances = "(string \<times> number) list"
type_synonym previous = "(string \<times> string option) list"
type_synonym pqueue = "(string \<times> real) list"

text \<open>
  The \<^verbatim>\<open>for (const neighbor of neighbors)\<close> loop. \<^verbatim>\<open>distances.get\<close> of a missing key is
  \<^verbatim>\<open>undefined\<close>, arithmetic on it is \<^verbatim>\<open>NaN\<close>, and every comparison with \<^verbatim>\<open>NaN\<close> is false:
  nothing is relaxed then. A sum that is \<^verbatim>\<open>Infinity\<close> is never smaller than a distance.
\<close>

fun relax ::
  "string \<Rightarrow> string set \<Rightarrow> (string \<times> real) list \<Rightarrow> distances \<times> previous \<times> pqueue
     \<Rightarrow> distances \<times> previous \<times> pqueue" where
  "relax current visited [] st = st"
| "relax current visited ((n, w) # rest) (distances, previous, queue) =
     (if n \<in> visited then relax current visited rest (distances, previous, queue)
      else (case map_of distances current of
              None \<Rightarrow> relax current visited rest (distances, previous, queue)
            | Some dc \<Rightarrow>
               (case num_add dc w of
                  Infinity \<Rightarrow> relax current visited rest (distances, previous, queue)
                | Finite newDistance \<Rightarrow>
                   (case map_of distances n of
                      None \<Rightarrow> relax current visited rest (distances, previous, queue)
                    | Some dn \<Rightarrow>
                       if num_less (Finite newDistance) dn
                       then relax current visited rest
                              (AList.update n (Finite newDistance) distances,
                               AList.update n (Some current) previous,
                               queue @ [(n, newDistance)])
                       else relax current visited rest (distances, previous, queue)))))"

lemma relax_keys:
  "fst ` set (fst (relax c vis ns (d, p, q))) = fst ` set d"
proof (induction ns arbitrary: d p q)
  case Nil
  show ?case by simp
next
  case (Cons a ns)
  obtain n w where a: "a = (n, w)" by (cases a)
  have "n \<in> fst ` set d" if "map_of d n = Some dn" for dn
    using that by (metis domI dom_map_of_conv_image_fst)
  then show ?case unfolding a
    by (auto simp: Cons.IH dom_update split: option.splits number.splits)
qed

lemma relax_no_distance:
  "map_of d c = None \<Longrightarrow> relax c vis ns (d, p, q) = (d, p, q)"
  by (induction ns) auto

text \<open>
  The main loop. \<^verbatim>\<open>queue.sort\<close> is stable and orders by distance, \<^verbatim>\<open>queue.shift()\<close> removes
  the head. The loop ends when the queue is empty or the destination is taken from it
  (\<^verbatim>\<open>break\<close>); only \<^verbatim>\<open>previous\<close> is read afterwards.
\<close>

function dijkstra_loop ::
  "adjacency \<Rightarrow> string \<Rightarrow> pqueue \<Rightarrow> string set \<Rightarrow> distances \<Rightarrow> previous \<Rightarrow> previous" where
  "dijkstra_loop adj endId queue visited distances previous =
     (case sort_key snd queue of
        [] \<Rightarrow> previous
      | current # queue' \<Rightarrow>
          if fst current \<in> visited then dijkstra_loop adj endId queue' visited distances previous
          else if fst current = endId then previous
          else (case relax (fst current) (insert (fst current) visited)
                            (neighbors_of adj (fst current)) (distances, previous, queue') of
                  (distances', previous', queue'') \<Rightarrow>
                     dijkstra_loop adj endId queue'' (insert (fst current) visited) distances' previous'))"
  by pat_completeness auto

termination
proof (relation "inv_image (less_than <*lex*> less_than)
         (\<lambda>(adj, e, q, vis, d, p). (card (fst ` set d - vis), length q))", goal_cases)
  case 1
  show ?case by (intro wf_inv_image wf_lex_prod wf_less_than)
next
  case (2 adj e q vis d p cur q')
  have "length (sort_key snd q) = length q" by (rule length_sort)
  with 2(1) show ?case by simp
next
  case (3 adj e q vis d p cur q' d' pq p' q'')
  then have r: "relax (fst cur) (insert (fst cur) vis) (neighbors_of adj (fst cur)) (d, p, q')
                 = (d', p', q'')" by simp
  have "length (sort_key snd q) = length q" by (rule length_sort)
  with 3(1) have len: "length q = Suc (length q')" by simp
  have keys: "fst ` set d' = fst ` set d"
    using relax_keys[of "fst cur" "insert (fst cur) vis" "neighbors_of adj (fst cur)" d p q'] r
    by simp
  show ?case
  proof (cases "map_of d (fst cur)")
    case None
    then have "relax (fst cur) (insert (fst cur) vis) (neighbors_of adj (fst cur)) (d, p, q')
                 = (d, p, q')" by (rule relax_no_distance)
    with r have "d' = d" "q'' = q'" by simp_all
    moreover have "fst cur \<notin> fst ` set d"
      using None by (simp add: map_of_eq_None_iff)
    then have "fst ` set d - insert (fst cur) vis = fst ` set d - vis" by auto
    ultimately show ?thesis using len by simp
  next
    case (Some dc)
    then have "fst cur \<in> fst ` set d" by (metis domI dom_map_of_conv_image_fst)
    with 3(2) have "fst ` set d - insert (fst cur) vis \<subset> fst ` set d - vis" by auto
    then have "card (fst ` set d - insert (fst cur) vis) < card (fst ` set d - vis)"
      by (intro psubset_card_mono) simp_all
    with keys show ?thesis by simp
  qed
qed

text \<open>
  Path reconstruction: \<^verbatim>\<open>while (currentNode !== null) { path.unshift(currentNode);
  currentNode = previous.get(currentNode) ?? null; }\<close>, where \<open>prev_of\<close> is the read
  \<^verbatim>\<open>previous.get(c) ?? null\<close>. The loop has no bound of its own, so the model lets it fail
  to return (\<open>None\<close>).
\<close>

definition prev_of :: "previous \<Rightarrow> string \<Rightarrow> string option" where
  "prev_of previous c = (case map_of previous c of None \<Rightarrow> None | Some v \<Rightarrow> v)"

partial_function (option) reconstruct ::
  "previous \<Rightarrow> string option \<Rightarrow> string list \<Rightarrow> string list option" where
  "reconstruct previous currentNode pth =
     (case currentNode of
        None \<Rightarrow> Some pth
      | Some c \<Rightarrow> reconstruct previous (prev_of previous c) (c # pth))"

declare reconstruct.simps [code]

text \<open>\<^verbatim>\<open>new Map(nodes.map(n => [n.id, n]))\<close>: of two nodes with one id the later one is kept.\<close>

definition nodeMap :: "GraphNode list \<Rightarrow> string \<rightharpoonup> GraphNode" where
  "nodeMap ns = map_of (rev (map (\<lambda>n. (node_id n, n)) ns))"

text \<open>
  A call returns a value or throws. The only statement of \<^verbatim>\<open>findShortestPath\<close> that can
  throw is \<^verbatim>\<open>nodeMap.get(nodeId)!.x\<close>, a \<^verbatim>\<open>TypeError\<close> when the id is no node.
\<close>

datatype 'a completion = Returned 'a | Thrown string

definition path_coordinates :: "(string \<rightharpoonup> GraphNode) \<Rightarrow> string list \<Rightarrow> (real \<times> real) list option" where
  "path_coordinates nm pth = those (map (\<lambda>i. map_option (\<lambda>n. (node_x n, node_y n)) (nm i)) pth)"

text \<open>
  \<^verbatim>\<open>findShortestPath(graph, startId, endId)\<close>. The outer option is \<open>None\<close> when the call does
  not return; otherwise it holds the console output (\<^verbatim>\<open>console.error\<close>) and the
  completion, whose value \<open>None\<close> is \<^verbatim>\<open>null\<close>.
\<close>

definition findShortestPath ::
  "Graph \<Rightarrow> string \<Rightarrow> string \<Rightarrow> (string list \<times> PathResult option completion) option" where
  "findShortestPath graph startId endId =
     (if nodeMap (graph_nodes graph) startId = None \<or> nodeMap (graph_nodes graph) endId = None
      then Some ([''Invalid start or end node''], Returned None)
      else
        (case reconstruct
                (dijkstra_loop (buildAdjacencyList (graph_edges graph)) endId [(startId, 0)] {}
                   (AList.update startId (Finite 0)
                      (fold (\<lambda>n. AList.update (node_id n) Infinity) (graph_nodes graph) []))
                   (fold (\<lambda>n. AList.update (node_id n) None) (graph_nodes graph) []))
                (Some endId) [] of
           None \<Rightarrow> None
         | Some [] \<Rightarrow> Some ([''No path found between nodes''], Returned None)
         | Some (first # rest) \<Rightarrow>
             if first \<noteq> startId then Some ([''No path found between nodes''], Returned None)
             else (case path_coordinates (nodeMap (graph_nodes graph)) (first # rest) of
                     None \<Rightarrow> Some ([], Thrown ''TypeError'')
                   | Some cs \<Rightarrow> Some ([], Returned (Some \<lparr>path = first # rest, coordinates = cs\<rparr>)))))"

text \<open>
  Edges are undirected. Two nodes are connected when a chain of edges leads from one to
  the other through declared nodes only.
\<close>

definition adjacent :: "Graph \<Rightarrow> string \<Rightarrow> string \<Rightarrow> bool" where
  "adjacent g u v \<longleftrightarrow>
     (\<exists>e \<in> set (graph_edges g). (edge_from e = u \<and> edge_to e = v) \<or> (edge_from e = v \<and> edge_to e = u))"

definition connected :: "Graph \<Rightarrow> string \<Rightarrow> string \<Rightarrow> bool" where
  "connected g a b \<longleftrightarrow>
     a \<in> node_id ` set (graph_nodes g)
     \<and> (\<lambda>u v. adjacent g u v \<and> v \<in> node_id ` set (graph_nodes g))\<^sup>*\<^sup>* a b"

declare dijkstra_loop.simps [simp del]

section \<open>The route request handler (Index page, \<^verbatim>\<open>handleNavigate\<close>)\<close>

text \<open>The React state of the page that the handler writes.\<close>

record ui_state =
  pathResult :: "PathResult option"
  isCalculating :: bool
  navigationError :: "string option"
  selectedStart :: "GraphNode option"
  selectedEnd :: "GraphNode option"

text \<open>An optional string in a condition: \<^verbatim>\<open>undefined\<close> and the empty string are falsy.\<close>

definition truthy :: "string option \<Rightarrow> bool" where
  "truthy v = (case v of None \<Rightarrow> False | Some t \<Rightarrow> t \<noteq> [])"

definition isStartInBlock :: "GraphNode \<Rightarrow> string \<Rightarrow> bool" where
  "isStartInBlock startNode endId \<longleftrightarrow> blockId startNode = Some endId"

definition isEndInBlock :: "GraphNode \<Rightarrow> string \<Rightarrow> bool" where
  "isEndInBlock endNode startId \<longleftrightarrow> blockId endNode = Some startId"

definition areInSameBlock :: "GraphNode \<Rightarrow> GraphNode \<Rightarrow> bool" where
  "areInSameBlock startNode endNode \<longleftrightarrow>
     truthy (blockId startNode) \<and> truthy (blockId endNode) \<and> blockId startNode = blockId endNode"

definition floorInfo :: "GraphNode \<Rightarrow> string" where
  "floorInfo endNode =
     (case floor_label endNode of
        None \<Rightarrow> ''it's just on a different floor''
      | Some f \<Rightarrow> if f = [] then ''it's just on a different floor'' else ''just in the '' @ f)"

definition same_building_message :: "GraphNode \<Rightarrow> string" where
  "same_building_message endNode =
     ''Hey, it's in the same building that you're in, '' @ floorInfo endNode"

text \<open>
  \<^verbatim>\<open>handleNavigate(startId, endId)\<close> together with its timer callback, as one step on the
  state. The graph is \<open>None\<close> while it is not loaded. The result is \<open>None\<close> when the call does
  not return; an exception of the solver leaves the callback (\<open>Thrown\<close>).
\<close>

definition handleNavigate ::
  "Graph option \<Rightarrow> string \<Rightarrow> string \<Rightarrow> ui_state \<Rightarrow> (string list \<times> ui_state completion) option" where
  "handleNavigate graph startId endId st =
     (case graph of
        None \<Rightarrow> Some ([], Returned st)
      | Some g \<Rightarrow>
         (let st1 = st\<lparr>isCalculating := True, navigationError := None\<rparr> in
          case (find (\<lambda>n. node_id n = startId) (graph_nodes g),
                find (\<lambda>n. node_id n = endId) (graph_nodes g)) of
            (None, _) \<Rightarrow> Some ([], Returned st1)
          | (Some startNode, None) \<Rightarrow> Some ([], Returned st1)
          | (Some startNode, Some endNode) \<Rightarrow>
              if startId = endId
              then Some ([], Returned (st1\<lparr>navigationError :=
                                               Some (''Bruh, you're already at '' @ name startNode),
                                            isCalculating := False\<rparr>))
              else if isStartInBlock startNode endId \<or> isEndInBlock endNode startId
                      \<or> areInSameBlock startNode endNode
              then Some ([], Returned (st1\<lparr>navigationError := Some (same_building_message endNode),
                                            isCalculating := False,
                                            pathResult := None,
                                            selectedStart := Some startNode,
                                            selectedEnd := Some endNode\<rparr>))
              else (case findShortestPath g startId endId of
                      None \<Rightarrow> None
                    | Some (out, Thrown err) \<Rightarrow> Some (out, Thrown err)
                    | Some (out, Returned (Some result)) \<Rightarrow>
                        Some (out, Returned (st1\<lparr>pathResult := Some result,
                                                  selectedStart := Some startNode,
                                                  selectedEnd := Some endNode,
                                                  isCalculating := False\<rparr>))
                    | Some (out, Returned None) \<Rightarrow>
                        Some (out, Returned (st1\<lparr>navigationError :=
                                                     Some ''No path found between these locations'',
                                                  isCalculating := False\<rparr>)))))"

section \<open>The nearest-node lookup (navigation.js)\<close>

text \<open>An entry of \<^verbatim>\<open>campusNodes\<close>; the fields \<^verbatim>\<open>name\<close> and \<^verbatim>\<open>type\<close> carry a prefix here.\<close>

record campus_node =
  cn_name :: string
  lat :: real
  lng :: real
  svgId :: string
  cn_type :: string

record nearest =
  nodeId :: "string option"
  node :: "campus_node option"
  distance :: number

text \<open>
  The scan of \<^verbatim>\<open>findNearestNode\<close> over \<^verbatim>\<open>Object.entries(campusNodes)\<close>. The great-circle
  distance \<^verbatim>\<open>haversineDistance\<close> is double-precision trigonometry; the scan takes it as the
  parameter \<open>hav\<close>.
\<close>

fun nearest_scan ::
  "(real \<Rightarrow> real \<Rightarrow> real \<Rightarrow> real \<Rightarrow> real) \<Rightarrow> real \<Rightarrow> real
     \<Rightarrow> (string \<times> campus_node) list \<Rightarrow> nearest \<Rightarrow> nearest" where
  "nearest_scan hav la lo [] acc = acc"
| "nearest_scan hav la lo ((nid, nd) # rest) acc =
     (if num_less (Finite (hav la lo (lat nd) (lng nd))) (distance acc)
      then nearest_scan hav la lo rest
             \<lparr>nodeId = Some nid, node = Some nd,
              distance = Finite (hav la lo (lat nd) (lng nd))\<rparr>
      else nearest_scan hav la lo rest acc)"

text \<open>
  \<^verbatim>\<open>findNearestNode(lat, lng)\<close>: the console output of the call (it has none) and the
  object it returns.
\<close>

definition findNearestNode ::
  "(real \<Rightarrow> real \<Rightarrow> real \<Rightarrow> real \<Rightarrow> real) \<Rightarrow> (string \<times> campus_node) list
     \<Rightarrow> real \<Rightarrow> real \<Rightarrow> string list \<times> nearest" where
  "findNearestNode hav campusNodes la lo =
     ([], nearest_scan hav la lo campusNodes \<lparr>nodeId = None, node = None, distance = Infinity\<rparr>)"

text \<open>
  The functions of this code base report an error by a \<^verbatim>\<open>console.warn\<close> or
  \<^verbatim>\<open>console.error\<close> message: a call signals an error when it writes one.
\<close>

definition signals_error :: "string list \<times> 'a \<Rightarrow> bool" where
  "signals_error r \<longleftrightarrow> fst r \<noteq> []"

section \<open>Example data\<close>

text \<open>Three nodes at the corners of a 3-4-5 triangle.\<close>

definition nodeA :: GraphNode where
  "nodeA = \<lparr>node_id = ''A'', name = ''Gate'', node_x = 0, node_y = 0, node_type = landmark,
            floor_label = None, facts = None, blockId = None\<rparr>"
definition nodeB :: GraphNode where
  "nodeB = \<lparr>node_id = ''B'', name = ''Junction'', node_x = 3, node_y = 0, node_type = junction,
            floor_label = None, facts = None, blockId = None\<rparr>"
definition nodeC :: GraphNode where
  "nodeC = \<lparr>node_id = ''C'', name = ''Library'', node_x = 3, node_y = 4, node_type = academic,
            floor_label = None, facts = None, blockId = None\<rparr>"

text \<open>The three nodes with the edge \<open>A\<close>-\<open>B\<close> only: \<open>C\<close> is isolated.\<close>

definition triangle_cut :: Graph where
  "triangle_cut = \<lparr>graph_nodes = [nodeA, nodeB, nodeC],
      graph_edges = [\<lparr>edge_from = ''A'', edge_to = ''B'', weight = 3\<rparr>]\<rparr>"

text \<open>A building with a room on its second floor, joined by one edge.\<close>

definition library :: GraphNode where
  "library = \<lparr>node_id = ''library'', name = ''Central Library'', node_x = 10, node_y = 20,
              node_type = academic, floor_label = None, facts = None, blockId = None\<rparr>"

definition reading_room :: GraphNode where
  "reading_room = \<lparr>node_id = ''reading_room'', name = ''Reading Room'', node_x = 10, node_y = 21,
              node_type = academic, floor_label = Some ''2nd floor'', facts = None,
              blockId = Some ''library''\<rparr>"

definition library_graph :: Graph where
  "library_graph = \<lparr>graph_nodes = [library, reading_room],
                    graph_edges = [\<lparr>edge_from = ''library'', edge_to = ''reading_room'', weight = 1\<rparr>]\<rparr>"

text \<open>Two different nodes whose parent is the empty string.\<close>

definition annex_a :: GraphNode where
  "annex_a = \<lparr>node_id = ''annex_a'', name = ''Annex A'', node_x = 0, node_y = 0,
              node_type = building, floor_label = None, facts = None, blockId = Some []\<rparr>"

definition annex_b :: GraphNode where
  "annex_b = \<lparr>node_id = ''annex_b'', name = ''Annex B'', node_x = 5, node_y = 0,
              node_type = building, floor_label = None, facts = None, blockId = Some []\<rparr>"

definition idle :: ui_state where
  "idle = \<lparr>pathResult = None, isCalculating = False, navigationError = None,
           selectedStart = None, selectedEnd = None\<rparr>"

section \<open>Routes in the block graph and what the search finds\<close>

lemma visit_neighbours_entries:
  "set (fst (visit_neighbours p vn ns (q, vis)))
     \<subseteq> set q \<union> {(n, p @ rds, vn @ [n]) | n rds. (n, rds) \<in> set ns}"
proof (induction ns arbitrary: q vis)
  case Nil
  show ?case by simp
next
  case (Cons a ns)
  obtain n rds where a: "a = (n, rds)" by (cases a)
  show ?case
  proof (cases "n \<in> vis")
    case True
    then show ?thesis using Cons.IH[of q vis] unfolding a by auto
  next
    case False
    then show ?thesis
      using Cons.IH[of "q @ [(n, p @ rds, vn @ [n])]" "insert n vis"] unfolding a by auto
  qed
qed

lemma bfs_loop_sound:
  "bfs_loop g e q vis = Some r \<Longrightarrow> \<exists>c \<in> fst ` set q. (bfs_edge g)\<^sup>*\<^sup>* c e"
proof (induction g e q vis rule: bfs_loop.induct)
  case (1 g e vis)
  then show ?case by simp
next
  case (2 g e cur p vn q vis)
  show ?case
  proof (cases "cur = e")
    case True
    then show ?thesis by auto
  next
    case ne: False
    show ?thesis
    proof (cases "has_entry g cur")
      case False
      with ne "2.prems" have "bfs_loop g e q vis = Some r" by simp
      from "2.IH"(1)[OF ne _ this] False show ?thesis by auto
    next
      case True
      obtain q' vis' where v: "visit_neighbours p vn (entries g cur) (q, vis) = (q', vis')"
        by (cases "visit_neighbours p vn (entries g cur) (q, vis)")
      with ne True "2.prems" have "bfs_loop g e q' vis' = Some r" by simp
      from "2.IH"(2)[OF ne _ v[symmetric] this] True
      obtain c where c: "c \<in> fst ` set q'" "(bfs_edge g)\<^sup>*\<^sup>* c e" by auto
      from c(1) visit_neighbours_queue_nodes[OF v]
      have "c \<in> fst ` set q \<or> c \<in> fst ` set (entries g cur)" by auto
      then show ?thesis
      proof
        assume "c \<in> fst ` set q"
        with c(2) show ?thesis by auto
      next
        assume "c \<in> fst ` set (entries g cur)"
        then have "bfs_edge g cur c" by (simp add: bfs_edge_def)
        then have "(bfs_edge g)\<^sup>*\<^sup>* cur e" using c(2) by (rule converse_rtranclp_into_rtranclp)
        then show ?thesis by auto
      qed
    qed
  qed
qed

lemma bfs_loop_shape:
  "bfs_loop g e q vis = Some r \<Longrightarrow>
   (\<And>c p vn. (c, p, vn) \<in> set q \<Longrightarrow> vn \<noteq> [] \<and> hd vn = s \<and> last vn = c) \<Longrightarrow>
   nodes r \<noteq> [] \<and> hd (nodes r) = s \<and> last (nodes r) = e"
proof (induction g e q vis rule: bfs_loop.induct)
  case (1 g e vis)
  then show ?case by simp
next
  case (2 g e cur p vn q vis)
  have head: "vn \<noteq> [] \<and> hd vn = s \<and> last vn = cur" using "2.prems"(2)[of cur p vn] by simp
  show ?case
  proof (cases "cur = e")
    case True
    with "2.prems"(1) have "r = \<lparr>roads = p, nodes = vn\<rparr>" by simp
    with head True show ?thesis by simp
  next
    case ne: False
    show ?thesis
    proof (cases "has_entry g cur")
      case False
      with ne "2.prems" have "bfs_loop g e q vis = Some r" by simp
      from "2.IH"(1)[OF ne _ this] False "2.prems"(2) show ?thesis by auto
    next
      case True
      obtain q' vis' where v: "visit_neighbours p vn (entries g cur) (q, vis) = (q', vis')"
        by (cases "visit_neighbours p vn (entries g cur) (q, vis)")
      with ne True "2.prems" have r: "bfs_loop g e q' vis' = Some r" by simp
      have "\<And>c' p' vn'. (c', p', vn') \<in> set q' \<Longrightarrow> vn' \<noteq> [] \<and> hd vn' = s \<and> last vn' = c'"
      proof -
        fix c' p' vn' assume "(c', p', vn') \<in> set q'"
        with visit_neighbours_entries[of p vn "entries g cur" q vis] v
        have "(c', p', vn') \<in> set q \<or> (\<exists>rds. p' = p @ rds \<and> vn' = vn @ [c'])" by auto
        then show "vn' \<noteq> [] \<and> hd vn' = s \<and> last vn' = c'"
          using "2.prems"(2) head by auto
      qed
      from "2.IH"(2)[OF ne _ v[symmetric] r this] True show ?thesis by simp
    qed
  qed
qed

lemma bfs_loop_complete:
  assumes "(bfs_edge g)\<^sup>*\<^sup>* s e" and "s \<in> vis"
    and "fst ` set q \<subseteq> vis"
    and "\<And>u v. u \<in> vis \<Longrightarrow> u \<notin> fst ` set q \<Longrightarrow> u \<noteq> e \<and> (bfs_edge g u v \<longrightarrow> v \<in> vis)"
  shows "bfs_loop g e q vis \<noteq> None"
  using assms
proof (induction g e q vis rule: bfs_loop.induct)
  case (1 g e vis)
  have "(bfs_edge g)\<^sup>*\<^sup>* s e" by fact
  then have "e \<in> vis"
  proof (induction rule: rtranclp_induct)
    case base
    show ?case by fact
  next
    case (step y z)
    with "1.prems"(4)[of y z] show ?case by simp
  qed
  with "1.prems"(4)[of e] show ?case by simp
next
  case (2 g e cur p vn q vis)
  show ?case
  proof (cases "cur = e")
    case True
    then show ?thesis by simp
  next
    case ne: False
    show ?thesis
    proof (cases "has_entry g cur")
      case False
      have nb: "entries g cur = []" using False by (auto simp: has_entry_def entries_def split: option.splits)
      have "bfs_loop g e q vis \<noteq> None"
      proof (rule "2.IH"(1)[OF ne _ "2.prems"(1,2)])
        show "\<not> has_entry g cur" using False by simp
        show "fst ` set q \<subseteq> vis" using "2.prems"(3) by auto
        fix u v assume u: "u \<in> vis" "u \<notin> fst ` set q"
        show "u \<noteq> e \<and> (bfs_edge g u v \<longrightarrow> v \<in> vis)"
        proof (cases "u = cur")
          case True
          with ne nb show ?thesis by (simp add: bfs_edge_def)
        next
          case False
          with u "2.prems"(4)[of u v] show ?thesis by simp
        qed
      qed
      with ne False show ?thesis by simp
    next
      case True
      obtain q' vis' where v: "visit_neighbours p vn (entries g cur) (q, vis) = (q', vis')"
        by (cases "visit_neighbours p vn (entries g cur) (q, vis)")
      have vis': "vis' = vis \<union> fst ` set (entries g cur)" using v by (rule visit_neighbours_visited)
      have q': "fst ` set q' = fst ` set q \<union> (fst ` set (entries g cur) - vis)"
        using v by (rule visit_neighbours_queue_nodes)
      have "bfs_loop g e q' vis' \<noteq> None"
      proof (rule "2.IH"(2)[OF ne _ v[symmetric] "2.prems"(1)])
        show "\<not> \<not> has_entry g cur" using True by simp
        show "s \<in> vis'" using "2.prems"(2) vis' by simp
        show "fst ` set q' \<subseteq> vis'" using "2.prems"(3) vis' q' by auto
        fix u w assume u: "u \<in> vis'" "u \<notin> fst ` set q'"
        show "u \<noteq> e \<and> (bfs_edge g u w \<longrightarrow> w \<in> vis')"
        proof (cases "u = cur")
          case True
          with ne vis' show ?thesis by (auto simp: bfs_edge_def)
        next
          case False
          from u q' vis' have "u \<in> vis" "u \<notin> fst ` set q" by auto
          with False "2.prems"(4)[of u w] vis' show ?thesis by simp
        qed
      qed
      with ne True v show ?thesis by simp
    qed
  qed
qed

text \<open>The two directions for \<^verbatim>\<open>findPath\<close> itself.\<close>

lemma findPath_route:
  assumes "route g s e"
  shows "\<exists>r. findPath g s e = ([], Some r) \<and> nodes r \<noteq> [] \<and> hd (nodes r) = s \<and> last (nodes r) = e"
proof (cases "s = e")
  case True
  then show ?thesis by (simp add: findPath_def)
next
  case False
  from assms have r: "(bfs_edge g)\<^sup>*\<^sup>* s e" by (simp add: route_def)
  with False obtain v where "bfs_edge g s v"
    by (metis converse_rtranclpE)
  then have "entries g s \<noteq> []" by (auto simp: bfs_edge_def)
  then have has: "has_entry g s"
    by (auto simp: entries_def has_entry_def split: option.splits)
  have "bfs_loop g e [(s, [], [s])] {s} \<noteq> None"
    by (rule bfs_loop_complete[OF r]) simp_all
  then obtain res where res: "bfs_loop g e [(s, [], [s])] {s} = Some res" by auto
  have "nodes res \<noteq> [] \<and> hd (nodes res) = s \<and> last (nodes res) = e"
    by (rule bfs_loop_shape[OF res]) simp
  with res False has show ?thesis by (simp add: findPath_def)
qed

lemma findPath_no_route:
  assumes "\<not> route g s e"
  shows "snd (findPath g s e) = None"
proof -
  from assms have ne: "s \<noteq> e" by (auto simp: route_def)
  show ?thesis
  proof (cases "has_entry g s")
    case False
    with ne show ?thesis by (simp add: findPath_def)
  next
    case True
    have "bfs_loop g e [(s, [], [s])] {s} = None"
    proof (rule ccontr)
      assume "bfs_loop g e [(s, [], [s])] {s} \<noteq> None"
      then obtain r where "bfs_loop g e [(s, [], [s])] {s} = Some r" by auto
      from bfs_loop_sound[OF this] have "(bfs_edge g)\<^sup>*\<^sup>* s e" by simp
      with assms show False by (simp add: route_def)
    qed
    with ne True show ?thesis by (simp add: findPath_def)
  qed
qed

text \<open>A block that no neighbour table lists cannot be reached from another block.\<close>

lemma no_route_to_unlisted:
  assumes "e \<notin> neighbour_ids g" and "s \<noteq> e"
  shows "\<not> route g s e"
proof
  assume "route g s e"
  then have "(bfs_edge g)\<^sup>*\<^sup>* s e" by (simp add: route_def)
  with assms(2) obtain u where "bfs_edge g u e" by (auto elim: rtranclp.cases)
  then have "e \<in> fst ` set (entries g u)" by (simp add: bfs_edge_def)
  with entries_subset[of g u] assms(1) show False by auto
qed

lemma findPath_silent_no_route:
  assumes "map_of g s \<noteq> None" and "\<not> route g s e"
  shows "findPath g s e = ([], None)"
proof -
  from assms(2) have "s \<noteq> e" by (auto simp: route_def)
  moreover have "has_entry g s" using assms(1) by (simp add: has_entry_def)
  moreover have "snd (findPath g s e) = None" using assms(2) by (rule findPath_no_route)
  ultimately show ?thesis by (simp add: findPath_def)
qed

section \<open>Connectivity in the weighted graph and what the search finds\<close>

text \<open>
  Nothing in this section uses a property of the arithmetic on distances: every lemma
  holds whatever \<open>num_add\<close> and \<open>num_less\<close> compute.
\<close>

text \<open>A node is discovered once its tentative distance is finite.\<close>

definition discovered :: "distances \<Rightarrow> string \<Rightarrow> bool" where
  "discovered d n \<longleftrightarrow> (\<exists>x. map_of d n = Some (Finite x))"

lemma prev_of_update:
  "prev_of (AList.update k v p) n = (if n = k then v else prev_of p n)"
  by (simp add: prev_of_def update_conv')

lemma discovered_update:
  "discovered (AList.update k (Finite x) d) n \<longleftrightarrow> n = k \<or> discovered d n"
  by (auto simp: discovered_def update_conv')

text \<open>The neighbour loop, one neighbour at a time.\<close>

lemma relax_Cons:
  "relax c vis (a # ns) st = relax c vis ns (relax c vis [a] st)"
proof -
  obtain n w where a: "a = (n, w)" by (cases a)
  obtain d p q where st: "st = (d, p, q)" by (cases st)
  show ?thesis unfolding a st
    by (simp split: option.split number.split)
qed

lemma relax_single:
  assumes "relax c vis [(n, w)] (d, p, q) = (d', p', q')"
  shows "(d', p', q') = (d, p, q)
       \<or> (n \<notin> vis \<and> map_of d n \<noteq> None
          \<and> (\<exists>x. d' = AList.update n (Finite x) d \<and> p' = AList.update n (Some c) p
                  \<and> q' = q @ [(n, x)]))"
  using assms by (auto split: if_splits option.splits number.splits)

text \<open>
  What the neighbour loop from \<open>c\<close> may change: discovered nodes stay discovered, visited
  nodes are untouched, the queue only grows, and a node that changes is an unvisited
  neighbour that ends up discovered, queued and with \<open>c\<close> as its previous node.
\<close>

definition relaxed ::
  "string \<Rightarrow> string set \<Rightarrow> string set \<Rightarrow> distances \<times> previous \<times> pqueue
     \<Rightarrow> distances \<times> previous \<times> pqueue \<Rightarrow> bool" where
  "relaxed c vis S st st' \<longleftrightarrow>
     (case st of (d, p, q) \<Rightarrow> case st' of (d', p', q') \<Rightarrow>
        (\<forall>n. discovered d n \<longrightarrow> discovered d' n)
      \<and> (\<forall>n. n \<in> vis \<longrightarrow> map_of d' n = map_of d n \<and> prev_of p' n = prev_of p n)
      \<and> set q \<subseteq> set q'
      \<and> dom (map_of d') = dom (map_of d)
      \<and> (\<forall>n. (discovered d' n = discovered d n \<and> prev_of p' n = prev_of p n
                \<and> (n \<in> fst ` set q' \<longrightarrow> n \<in> fst ` set q))
             \<or> (n \<in> S \<and> n \<notin> vis \<and> n \<in> dom (map_of d) \<and> discovered d' n
                \<and> prev_of p' n = Some c \<and> n \<in> fst ` set q')))"

lemma relaxed_refl: "relaxed c vis {} st st"
  by (cases st) (simp add: relaxed_def)

lemma relaxed_single:
  "relaxed c vis {fst a} st (relax c vis [a] st)"
proof -
  obtain n w where a: "a = (n, w)" by (cases a)
  obtain d p q where st: "st = (d, p, q)" by (cases st)
  obtain d' p' q' where r: "relax c vis [(n, w)] (d, p, q) = (d', p', q')"
    by (cases "relax c vis [(n, w)] (d, p, q)")
  from relax_single[OF r] show ?thesis
  proof
    assume "(d', p', q') = (d, p, q)"
    with r show ?thesis unfolding a st by (simp add: relaxed_def)
  next
    assume "n \<notin> vis \<and> map_of d n \<noteq> None
          \<and> (\<exists>x. d' = AList.update n (Finite x) d \<and> p' = AList.update n (Some c) p
                  \<and> q' = q @ [(n, x)])"
    then obtain x where n: "n \<notin> vis" "map_of d n \<noteq> None"
      and eq: "d' = AList.update n (Finite x) d" "p' = AList.update n (Some c) p" "q' = q @ [(n, x)]"
      by blast
    have dom: "dom (map_of d') = dom (map_of d)"
      using n(2) unfolding eq by (auto simp: update_conv')
    have "relaxed c vis {n} (d, p, q) (d', p', q')"
      unfolding relaxed_def using n dom
      by (auto simp: eq discovered_update prev_of_update update_conv')
    with r show ?thesis unfolding a st by simp
  qed
qed

lemma relaxed_trans:
  assumes "relaxed c vis S1 st0 st1" and "relaxed c vis S2 st1 st2"
  shows "relaxed c vis (S1 \<union> S2) st0 st2"
proof -
  obtain d0 p0 q0 where 0: "st0 = (d0, p0, q0)" by (cases st0)
  obtain d1 p1 q1 where 1: "st1 = (d1, p1, q1)" by (cases st1)
  obtain d2 p2 q2 where 2: "st2 = (d2, p2, q2)" by (cases st2)
  note a = assms[unfolded 0 1 2 relaxed_def, simplified]
  have m01: "\<And>n. discovered d0 n \<Longrightarrow> discovered d1 n" using a(1) by blast
  have m12: "\<And>n. discovered d1 n \<Longrightarrow> discovered d2 n" using a(2) by blast
  have q01: "set q0 \<subseteq> set q1" using a(1) by blast
  have q12: "set q1 \<subseteq> set q2" using a(2) by blast
  have dom01: "dom (map_of d1) = dom (map_of d0)" using a(1) by blast
  have dom12: "dom (map_of d2) = dom (map_of d1)" using a(2) by blast
  have v01: "\<And>n. n \<in> vis \<Longrightarrow> map_of d1 n = map_of d0 n \<and> prev_of p1 n = prev_of p0 n"
    using a(1) by blast
  have v12: "\<And>n. n \<in> vis \<Longrightarrow> map_of d2 n = map_of d1 n \<and> prev_of p2 n = prev_of p1 n"
    using a(2) by blast
  have c01: "\<And>n. (discovered d1 n = discovered d0 n \<and> prev_of p1 n = prev_of p0 n
                \<and> (n \<in> fst ` set q1 \<longrightarrow> n \<in> fst ` set q0))
             \<or> (n \<in> S1 \<and> n \<notin> vis \<and> n \<in> dom (map_of d0) \<and> discovered d1 n
                \<and> prev_of p1 n = Some c \<and> n \<in> fst ` set q1)"
    using a(1) by blast
  have c12: "\<And>n. (discovered d2 n = discovered d1 n \<and> prev_of p2 n = prev_of p1 n
                \<and> (n \<in> fst ` set q2 \<longrightarrow> n \<in> fst ` set q1))
             \<or> (n \<in> S2 \<and> n \<notin> vis \<and> n \<in> dom (map_of d1) \<and> discovered d2 n
                \<and> prev_of p2 n = Some c \<and> n \<in> fst ` set q2)"
    using a(2) by blast
  have c02: "(discovered d2 n = discovered d0 n \<and> prev_of p2 n = prev_of p0 n
                \<and> (n \<in> fst ` set q2 \<longrightarrow> n \<in> fst ` set q0))
             \<or> (n \<in> S1 \<union> S2 \<and> n \<notin> vis \<and> n \<in> dom (map_of d0) \<and> discovered d2 n
                \<and> prev_of p2 n = Some c \<and> n \<in> fst ` set q2)" for n
    using c01[of n] c12[of n] m12[of n] q12 dom01 by auto
  show ?thesis
    unfolding 0 2 relaxed_def
    using m01 m12 q01 q12 dom01 dom12 v01 v12 c02 by auto
qed

lemma relax_relaxed: "relaxed c vis (fst ` set ns) st (relax c vis ns st)"
proof (induction ns arbitrary: st)
  case Nil
  show ?case by (cases st) (simp add: relaxed_refl)
next
  case (Cons a ns)
  have "relaxed c vis ({fst a} \<union> fst ` set ns) st (relax c vis ns (relax c vis [a] st))"
    by (rule relaxed_trans[OF relaxed_single Cons.IH])
  then show ?case by (simp add: relax_Cons[of c vis a ns st])
qed

text \<open>
  \<open>walk p s n l\<close>: following \<^verbatim>\<open>previous\<close> back from \<open>n\<close> ends at \<open>s\<close>, and \<open>l\<close> lists the nodes
  from \<open>s\<close> to \<open>n\<close>. On such a chain the reconstruction loop returns.
\<close>

inductive walk :: "previous \<Rightarrow> string \<Rightarrow> string \<Rightarrow> string list \<Rightarrow> bool" for p s where
  walk_start: "prev_of p s = None \<Longrightarrow> walk p s s [s]"
| walk_step: "prev_of p n = Some c \<Longrightarrow> walk p s c l \<Longrightarrow> walk p s n (l @ [n])"

lemma walk_ends: "walk p s n l \<Longrightarrow> l \<noteq> [] \<and> hd l = s \<and> last l = n"
  by (induction rule: walk.induct) auto

lemma walk_reconstruct: "walk p s n l \<Longrightarrow> reconstruct p (Some n) acc = Some (l @ acc)"
proof (induction arbitrary: acc rule: walk.induct)
  case walk_start
  then show ?case by (simp add: reconstruct.simps)
next
  case (walk_step n c l)
  have "reconstruct p (Some n) acc = reconstruct p (Some c) (n # acc)"
    using walk_step.hyps(1) by (subst reconstruct.simps) simp
  with walk_step.IH[of "n # acc"] show ?case by simp
qed

lemma walk_cong:
  "walk p s n l \<Longrightarrow> (\<And>m. m \<in> set l \<Longrightarrow> prev_of p' m = prev_of p m) \<Longrightarrow> walk p' s n l"
proof (induction rule: walk.induct)
  case walk_start
  then show ?case by (simp add: walk.walk_start)
next
  case (walk_step n c l)
  have "prev_of p' n = Some c" using walk_step.prems[of n] walk_step.hyps(1) by simp
  moreover have "walk p' s c l" using walk_step.IH walk_step.prems by simp
  ultimately show ?case by (rule walk.walk_step)
qed

text \<open>A step of the search: to a neighbour that has a distance entry (a declared node).\<close>

definition wstep :: "adjacency \<Rightarrow> string set \<Rightarrow> string \<Rightarrow> string \<Rightarrow> bool" where
  "wstep adj N u v \<longleftrightarrow> v \<in> fst ` set (neighbors_of adj u) \<and> v \<in> N"

text \<open>The invariant of the main loop, for start \<open>s\<close> and destination \<open>e\<close>.\<close>

definition search_inv ::
  "adjacency \<Rightarrow> string \<Rightarrow> string \<Rightarrow> pqueue \<Rightarrow> string set \<Rightarrow> distances \<Rightarrow> previous \<Rightarrow> bool" where
  "search_inv adj s e q vis d p \<longleftrightarrow>
     prev_of p s = None \<and> discovered d s \<and> e \<notin> vis
   \<and> (s \<in> vis \<or> (vis = {} \<and> fst ` set q \<subseteq> {s}))
   \<and> (\<forall>n c. prev_of p n = Some c \<longrightarrow> c \<in> vis \<and> discovered d n)
   \<and> (\<forall>n. discovered d n \<longrightarrow> n \<noteq> s \<longrightarrow> prev_of p n \<noteq> None)
   \<and> (\<forall>v \<in> vis. \<exists>l. walk p s v l \<and> set l \<subseteq> vis)
   \<and> (\<forall>n. discovered d n \<longrightarrow> n \<notin> vis \<longrightarrow> n \<in> fst ` set q)
   \<and> (\<forall>n \<in> fst ` set q \<union> vis. discovered d n)
   \<and> (\<forall>n. discovered d n \<longrightarrow> (wstep adj (dom (map_of d)))\<^sup>*\<^sup>* s n)"

lemma discovered_dom: "discovered d n \<Longrightarrow> n \<in> dom (map_of d)"
  by (auto simp: discovered_def)

lemma invD:
  assumes "search_inv adj s e q vis d p"
  shows inv_prev_s: "prev_of p s = None"
    and inv_disc_s: "discovered d s"
    and inv_e: "e \<notin> vis"
    and inv_first: "s \<in> vis \<or> (vis = {} \<and> fst ` set q \<subseteq> {s})"
    and inv_prev: "\<And>n c. prev_of p n = Some c \<Longrightarrow> c \<in> vis \<and> discovered d n"
    and inv_has_prev: "\<And>n. discovered d n \<Longrightarrow> n \<noteq> s \<Longrightarrow> prev_of p n \<noteq> None"
    and inv_walk: "\<And>v. v \<in> vis \<Longrightarrow> \<exists>l. walk p s v l \<and> set l \<subseteq> vis"
    and inv_queued: "\<And>n. discovered d n \<Longrightarrow> n \<notin> vis \<Longrightarrow> n \<in> fst ` set q"
    and inv_disc: "\<And>n. n \<in> fst ` set q \<union> vis \<Longrightarrow> discovered d n"
    and inv_reach: "\<And>n. discovered d n \<Longrightarrow> (wstep adj (dom (map_of d)))\<^sup>*\<^sup>* s n"
proof -
  note i = assms[unfolded search_inv_def]
  show "prev_of p s = None"
    by (rule i[THEN conjunct1, rule_format])
  show "discovered d s"
    by (rule i[THEN conjunct2, THEN conjunct1, rule_format])
  show "e \<notin> vis"
    by (rule i[THEN conjunct2, THEN conjunct2, THEN conjunct1, rule_format])
  show "s \<in> vis \<or> (vis = {} \<and> fst ` set q \<subseteq> {s})"
    by (rule i[THEN conjunct2, THEN conjunct2, THEN conjunct2, THEN conjunct1, rule_format])
  show "\<And>n c. prev_of p n = Some c \<Longrightarrow> c \<in> vis \<and> discovered d n"
    using i[THEN conjunct2, THEN conjunct2, THEN conjunct2, THEN conjunct2, THEN conjunct1, rule_format] by blast
  show "\<And>n. discovered d n \<Longrightarrow> n \<noteq> s \<Longrightarrow> prev_of p n \<noteq> None"
    using i[THEN conjunct2, THEN conjunct2, THEN conjunct2, THEN conjunct2, THEN conjunct2, THEN conjunct1, rule_format] by blast
  show "\<And>v. v \<in> vis \<Longrightarrow> \<exists>l. walk p s v l \<and> set l \<subseteq> vis"
    using i[THEN conjunct2, THEN conjunct2, THEN conjunct2, THEN conjunct2, THEN conjunct2, THEN conjunct2, THEN conjunct1, rule_format] by blast
  show "\<And>n. discovered d n \<Longrightarrow> n \<notin> vis \<Longrightarrow> n \<in> fst ` set q"
    using i[THEN conjunct2, THEN conjunct2, THEN conjunct2, THEN conjunct2, THEN conjunct2, THEN conjunct2, THEN conjunct2, THEN conjunct1, rule_format] by blast
  show "\<And>n. n \<in> fst ` set q \<union> vis \<Longrightarrow> discovered d n"
    using i[THEN conjunct2, THEN conjunct2, THEN conjunct2, THEN conjunct2, THEN conjunct2, THEN conjunct2, THEN conjunct2, THEN conjunct2, THEN conjunct1, rule_format] by blast
  show "\<And>n. discovered d n \<Longrightarrow> (wstep adj (dom (map_of d)))\<^sup>*\<^sup>* s n"
    using i[THEN conjunct2, THEN conjunct2, THEN conjunct2, THEN conjunct2, THEN conjunct2, THEN conjunct2, THEN conjunct2, THEN conjunct2, THEN conjunct2, rule_format] by blast
qed

lemma invI:
  assumes "prev_of p s = None" and "discovered d s" and "e \<notin> vis"
    and "s \<in> vis \<or> (vis = {} \<and> fst ` set q \<subseteq> {s})"
    and "\<And>n c. prev_of p n = Some c \<Longrightarrow> c \<in> vis \<and> discovered d n"
    and "\<And>n. discovered d n \<Longrightarrow> n \<noteq> s \<Longrightarrow> prev_of p n \<noteq> None"
    and "\<And>v. v \<in> vis \<Longrightarrow> \<exists>l. walk p s v l \<and> set l \<subseteq> vis"
    and "\<And>n. discovered d n \<Longrightarrow> n \<notin> vis \<Longrightarrow> n \<in> fst ` set q"
    and "\<And>n. n \<in> fst ` set q \<union> vis \<Longrightarrow> discovered d n"
    and "\<And>n. discovered d n \<Longrightarrow> (wstep adj (dom (map_of d)))\<^sup>*\<^sup>* s n"
  shows "search_inv adj s e q vis d p"
  unfolding search_inv_def
  apply (intro conjI allI impI ballI)
  using assms(1) apply assumption
  using assms(2) apply assumption
  using assms(3) apply assumption
  using assms(4) apply assumption
  using assms(5) apply blast
  using assms(5) apply blast
  using assms(6) apply blast
  using assms(7) apply blast
  using assms(8) apply blast
  using assms(9) apply blast
  using assms(10) apply blast
  done

text \<open>Exit with an empty queue.\<close>

lemma search_inv_empty:
  assumes inv: "search_inv adj s e [] vis d p"
  shows "e \<noteq> s" and "prev_of p e = None"
proof -
  have all_vis: "n \<in> vis" if "discovered d n" for n
    using inv_queued[OF inv that] by auto
  have nd: "\<not> discovered d e" using all_vis[of e] inv_e[OF inv] by blast
  with inv_disc_s[OF inv] show "e \<noteq> s" by auto
  show "prev_of p e = None"
  proof (rule ccontr)
    assume "prev_of p e \<noteq> None"
    then obtain c where "prev_of p e = Some c" by auto
    from inv_prev[OF inv this] nd show False by simp
  qed
qed

text \<open>Exit at the destination.\<close>

lemma search_inv_found:
  assumes inv: "search_inv adj s e q vis d p" and "e \<in> fst ` set q"
  shows "(wstep adj (dom (map_of d)))\<^sup>*\<^sup>* s e"
    and "\<exists>l. walk p s e l \<and> set l \<subseteq> dom (map_of d)"
proof -
  have de: "discovered d e" using inv_disc[OF inv, of e] assms(2) by simp
  from inv_reach[OF inv de] show "(wstep adj (dom (map_of d)))\<^sup>*\<^sup>* s e" .
  have vis_dom: "vis \<subseteq> dom (map_of d)"
    using inv_disc[OF inv] discovered_dom by blast
  show "\<exists>l. walk p s e l \<and> set l \<subseteq> dom (map_of d)"
  proof (cases "e = s")
    case True
    have "walk p s s [s]" using inv_prev_s[OF inv] by (rule walk_start)
    moreover have "s \<in> dom (map_of d)" using inv_disc_s[OF inv] by (rule discovered_dom)
    ultimately show ?thesis using True by auto
  next
    case False
    from inv_has_prev[OF inv de False] obtain c where c: "prev_of p e = Some c" by auto
    from inv_prev[OF inv c] have "c \<in> vis" by simp
    from inv_walk[OF inv this] obtain l where l: "walk p s c l" "set l \<subseteq> vis" by blast
    from c l(1) have "walk p s e (l @ [e])" by (rule walk_step)
    moreover have "set (l @ [e]) \<subseteq> dom (map_of d)"
      using l(2) vis_dom discovered_dom[OF de] by auto
    ultimately show ?thesis by blast
  qed
qed

text \<open>An entry whose node is already visited is dropped.\<close>

lemma search_inv_skip:
  assumes inv: "search_inv adj s e q vis d p"
    and pop: "sort_key snd q = cur # q'" and cur: "fst cur \<in> vis"
  shows "search_inv adj s e q' vis d p"
proof -
  from pop have "set q = set (cur # q')" by (metis set_sort)
  then have q: "fst ` set q = insert (fst cur) (fst ` set q')" by simp
  show ?thesis
  proof (rule invI)
    show "prev_of p s = None" by (rule inv_prev_s[OF inv])
    show "discovered d s" by (rule inv_disc_s[OF inv])
    show "e \<notin> vis" by (rule inv_e[OF inv])
    show "s \<in> vis \<or> (vis = {} \<and> fst ` set q' \<subseteq> {s})"
      using inv_first[OF inv] cur by auto
    show "\<And>n c. prev_of p n = Some c \<Longrightarrow> c \<in> vis \<and> discovered d n"
      by (rule inv_prev[OF inv])
    show "\<And>n. discovered d n \<Longrightarrow> n \<noteq> s \<Longrightarrow> prev_of p n \<noteq> None"
      by (rule inv_has_prev[OF inv])
    show "\<And>v. v \<in> vis \<Longrightarrow> \<exists>l. walk p s v l \<and> set l \<subseteq> vis"
      by (rule inv_walk[OF inv])
    show "\<And>n. discovered d n \<Longrightarrow> n \<notin> vis \<Longrightarrow> n \<in> fst ` set q'"
      using inv_queued[OF inv] q cur by auto
    show "\<And>n. n \<in> fst ` set q' \<union> vis \<Longrightarrow> discovered d n"
      using inv_disc[OF inv] q by auto
    show "\<And>n. discovered d n \<Longrightarrow> (wstep adj (dom (map_of d)))\<^sup>*\<^sup>* s n"
      by (rule inv_reach[OF inv])
  qed
qed

lemma relaxedD:
  assumes "relaxed c vis S (d, p, q) (d', p', q')"
  shows rel_mono: "\<And>n. discovered d n \<Longrightarrow> discovered d' n"
    and rel_vis: "\<And>n. n \<in> vis \<Longrightarrow> map_of d' n = map_of d n \<and> prev_of p' n = prev_of p n"
    and rel_queue: "set q \<subseteq> set q'"
    and rel_dom: "dom (map_of d') = dom (map_of d)"
    and rel_change: "\<And>n. (discovered d' n = discovered d n \<and> prev_of p' n = prev_of p n
                \<and> (n \<in> fst ` set q' \<longrightarrow> n \<in> fst ` set q))
             \<or> (n \<in> S \<and> n \<notin> vis \<and> n \<in> dom (map_of d) \<and> discovered d' n
                \<and> prev_of p' n = Some c \<and> n \<in> fst ` set q')"
proof -
  note i = assms[unfolded relaxed_def prod.case]
  show "\<And>n. discovered d n \<Longrightarrow> discovered d' n"
    using i[THEN conjunct1, rule_format] by blast
  show "\<And>n. n \<in> vis \<Longrightarrow> map_of d' n = map_of d n \<and> prev_of p' n = prev_of p n"
    using i[THEN conjunct2, THEN conjunct1, rule_format] by blast
  show "set q \<subseteq> set q'"
    by (rule i[THEN conjunct2, THEN conjunct2, THEN conjunct1])
  show "dom (map_of d') = dom (map_of d)"
    by (rule i[THEN conjunct2, THEN conjunct2, THEN conjunct2, THEN conjunct1])
  show "\<And>n. (discovered d' n = discovered d n \<and> prev_of p' n = prev_of p n
                \<and> (n \<in> fst ` set q' \<longrightarrow> n \<in> fst ` set q))
             \<or> (n \<in> S \<and> n \<notin> vis \<and> n \<in> dom (map_of d) \<and> discovered d' n
                \<and> prev_of p' n = Some c \<and> n \<in> fst ` set q')"
    using i[THEN conjunct2, THEN conjunct2, THEN conjunct2, THEN conjunct2, THEN spec] .
qed

text \<open>A node taken from the queue for the first time is expanded.\<close>

lemma search_inv_expand:
  assumes inv: "search_inv adj s e q vis d p"
    and pop: "sort_key snd q = cur # q'"
    and new: "fst cur \<notin> vis" and ne: "fst cur \<noteq> e"
    and r: "relax (fst cur) (insert (fst cur) vis) (neighbors_of adj (fst cur)) (d, p, q')
              = (d', p', q'')"
  shows "search_inv adj s e q'' (insert (fst cur) vis) d' p'"
proof -
  define c where "c = fst cur"
  define vis' where "vis' = insert c vis"
  define S where "S = fst ` set (neighbors_of adj c)"
  have r': "relax c vis' (neighbors_of adj c) (d, p, q') = (d', p', q'')"
    using r by (simp add: c_def vis'_def)
  have rel: "relaxed c vis' S (d, p, q') (d', p', q'')"
    using relax_relaxed[of c vis' "neighbors_of adj c" "(d, p, q')"] r' by (simp add: S_def)
  note mono = rel_mono[OF rel] and same = rel_vis[OF rel] and qsub = rel_queue[OF rel]
    and dom = rel_dom[OF rel] and change = rel_change[OF rel]
  from pop have "set q = set (cur # q')" by (metis set_sort)
  then have q: "fst ` set q = insert c (fst ` set q')" by (simp add: c_def)
  have c_disc: "discovered d c" using inv_disc[OF inv, of c] q by simp
  have vis_sub: "vis \<subseteq> vis'" by (auto simp: vis'_def)
  have c_vis': "c \<in> vis'" by (simp add: vis'_def)
  have s_vis': "s \<in> vis'"
    using inv_first[OF inv] q by (auto simp: vis'_def)
  have walk_c: "\<exists>l. walk p s c l \<and> set l \<subseteq> vis'"
  proof (cases "c = s")
    case True
    have "walk p s s [s]" using inv_prev_s[OF inv] by (rule walk_start)
    with True c_vis' show ?thesis by auto
  next
    case False
    from inv_has_prev[OF inv c_disc False] obtain k where k: "prev_of p c = Some k" by auto
    from inv_prev[OF inv k] have "k \<in> vis" by simp
    from inv_walk[OF inv this] obtain l where l: "walk p s k l" "set l \<subseteq> vis" by blast
    from k l(1) have "walk p s c (l @ [c])" by (rule walk_step)
    moreover have "set (l @ [c]) \<subseteq> vis'" using l(2) by (auto simp: vis'_def)
    ultimately show ?thesis by blast
  qed
  have "search_inv adj s e q'' vis' d' p'"
  proof (rule invI)
    show "prev_of p' s = None" using same[OF s_vis'] inv_prev_s[OF inv] by simp
    show "discovered d' s" using mono inv_disc_s[OF inv] by blast
    show "e \<notin> vis'" using inv_e[OF inv] ne by (simp add: vis'_def c_def)
    show "s \<in> vis' \<or> (vis' = {} \<and> fst ` set q'' \<subseteq> {s})" using s_vis' by simp
  next
    fix n k assume k: "prev_of p' n = Some k"
    from change[of n] show "k \<in> vis' \<and> discovered d' n"
    proof
      assume a: "discovered d' n = discovered d n \<and> prev_of p' n = prev_of p n
                \<and> (n \<in> fst ` set q'' \<longrightarrow> n \<in> fst ` set q')"
      with k have "prev_of p n = Some k" by simp
      from inv_prev[OF inv this] a vis_sub show ?thesis by auto
    next
      assume "n \<in> S \<and> n \<notin> vis' \<and> n \<in> dom (map_of d) \<and> discovered d' n
                \<and> prev_of p' n = Some c \<and> n \<in> fst ` set q''"
      with k c_vis' show ?thesis by simp
    qed
  next
    fix n assume n: "discovered d' n" "n \<noteq> s"
    from change[of n] show "prev_of p' n \<noteq> None"
    proof
      assume a: "discovered d' n = discovered d n \<and> prev_of p' n = prev_of p n
                \<and> (n \<in> fst ` set q'' \<longrightarrow> n \<in> fst ` set q')"
      with n have "discovered d n" by simp
      from inv_has_prev[OF inv this n(2)] a show ?thesis by simp
    next
      assume "n \<in> S \<and> n \<notin> vis' \<and> n \<in> dom (map_of d) \<and> discovered d' n
                \<and> prev_of p' n = Some c \<and> n \<in> fst ` set q''"
      then show ?thesis by simp
    qed
  next
    fix v assume v: "v \<in> vis'"
    have "\<exists>l. walk p s v l \<and> set l \<subseteq> vis'"
    proof (cases "v = c")
      case True
      with walk_c show ?thesis by simp
    next
      case False
      with v have "v \<in> vis" by (simp add: vis'_def)
      from inv_walk[OF inv this] vis_sub show ?thesis by blast
    qed
    then obtain l where l: "walk p s v l" "set l \<subseteq> vis'" by blast
    have "walk p' s v l"
      using l(1)
    proof (rule walk_cong)
      fix m assume "m \<in> set l"
      with l(2) have "m \<in> vis'" by auto
      from same[OF this] show "prev_of p' m = prev_of p m" by simp
    qed
    with l(2) show "\<exists>l. walk p' s v l \<and> set l \<subseteq> vis'" by blast
  next
    fix n assume n: "discovered d' n" "n \<notin> vis'"
    from change[of n] show "n \<in> fst ` set q''"
    proof
      assume a: "discovered d' n = discovered d n \<and> prev_of p' n = prev_of p n
                \<and> (n \<in> fst ` set q'' \<longrightarrow> n \<in> fst ` set q')"
      with n have dn: "discovered d n" by simp
      from n(2) have "n \<notin> vis" "n \<noteq> c" by (auto simp: vis'_def)
      with inv_queued[OF inv dn] q have "n \<in> fst ` set q'" by auto
      with qsub show ?thesis by auto
    next
      assume "n \<in> S \<and> n \<notin> vis' \<and> n \<in> dom (map_of d) \<and> discovered d' n
                \<and> prev_of p' n = Some c \<and> n \<in> fst ` set q''"
      then show ?thesis by simp
    qed
  next
    fix n assume n: "n \<in> fst ` set q'' \<union> vis'"
    show "discovered d' n"
    proof (cases "n \<in> vis'")
      case True
      then have "discovered d n" using inv_disc[OF inv, of n] c_disc by (auto simp: vis'_def)
      then show ?thesis by (rule mono)
    next
      case False
      with n have nq: "n \<in> fst ` set q''" by simp
      from change[of n] show ?thesis
      proof
        assume a: "discovered d' n = discovered d n \<and> prev_of p' n = prev_of p n
                \<and> (n \<in> fst ` set q'' \<longrightarrow> n \<in> fst ` set q')"
        with nq have "n \<in> fst ` set q'" by simp
        with q have "n \<in> fst ` set q" by simp
        with inv_disc[OF inv, of n] a show ?thesis by simp
      next
        assume "n \<in> S \<and> n \<notin> vis' \<and> n \<in> dom (map_of d) \<and> discovered d' n
                \<and> prev_of p' n = Some c \<and> n \<in> fst ` set q''"
        then show ?thesis by simp
      qed
    qed
  next
    fix n assume n: "discovered d' n"
    from change[of n] show "(wstep adj (dom (map_of d')))\<^sup>*\<^sup>* s n"
    proof
      assume a: "discovered d' n = discovered d n \<and> prev_of p' n = prev_of p n
                \<and> (n \<in> fst ` set q'' \<longrightarrow> n \<in> fst ` set q')"
      with n have "discovered d n" by simp
      from inv_reach[OF inv this] dom show ?thesis by simp
    next
      assume a: "n \<in> S \<and> n \<notin> vis' \<and> n \<in> dom (map_of d) \<and> discovered d' n
                \<and> prev_of p' n = Some c \<and> n \<in> fst ` set q''"
      then have "wstep adj (dom (map_of d)) c n" by (simp add: wstep_def S_def)
      with inv_reach[OF inv c_disc] have "(wstep adj (dom (map_of d)))\<^sup>*\<^sup>* s n"
        by (rule rtranclp.rtrancl_into_rtrancl)
      with dom show ?thesis by simp
    qed
  qed
  then show ?thesis by (simp add: vis'_def c_def)
qed

text \<open>
  When the loop ends, either the destination was taken from the queue, and then it is
  reachable from the start and the \<^verbatim>\<open>previous\<close> links lead from it back to the start
  through declared nodes; or the queue ran empty, and then the destination is not the
  start and has no \<^verbatim>\<open>previous\<close> link.
\<close>

lemma dijkstra_loop_post:
  assumes "search_inv adj s e q vis d p"
  shows "((wstep adj (dom (map_of d)))\<^sup>*\<^sup>* s e
            \<and> (\<exists>l. walk (dijkstra_loop adj e q vis d p) s e l \<and> set l \<subseteq> dom (map_of d)))
       \<or> (e \<noteq> s \<and> prev_of (dijkstra_loop adj e q vis d p) e = None)"
  using assms
proof (induction adj e q vis d p rule: dijkstra_loop.induct)
  case (1 adj e q vis d p)
  note inv = "1.prems"
  show ?case
  proof (cases "sort_key snd q")
    case Nil
    then have "length q = 0" by (metis length_sort list.size(3))
    then have q: "q = []" by simp
    have res: "dijkstra_loop adj e q vis d p = p"
      by (subst dijkstra_loop.simps) (simp add: Nil)
    from search_inv_empty[OF inv[unfolded q]] res show ?thesis by simp
  next
    case (Cons cur q')
    then have "set q = set (cur # q')" by (metis set_sort)
    then have curq: "fst cur \<in> fst ` set q" by simp
    show ?thesis
    proof (cases "fst cur \<in> vis")
      case True
      have res: "dijkstra_loop adj e q vis d p = dijkstra_loop adj e q' vis d p"
        by (subst dijkstra_loop.simps) (simp add: Cons True)
      from "1.IH"(1)[OF Cons True search_inv_skip[OF inv Cons True]] res
      show ?thesis by simp
    next
      case nv: False
      show ?thesis
      proof (cases "fst cur = e")
        case True
        have res: "dijkstra_loop adj e q vis d p = p"
          using inv_e[OF inv] by (subst dijkstra_loop.simps) (simp add: Cons True)
        from search_inv_found[OF inv] curq True res show ?thesis by simp
      next
        case ne: False
        obtain d' p' q'' where r:
          "relax (fst cur) (insert (fst cur) vis) (neighbors_of adj (fst cur)) (d, p, q')
             = (d', p', q'')"
          by (cases "relax (fst cur) (insert (fst cur) vis) (neighbors_of adj (fst cur)) (d, p, q')")
        have res: "dijkstra_loop adj e q vis d p
                     = dijkstra_loop adj e q'' (insert (fst cur) vis) d' p'"
          by (subst dijkstra_loop.simps) (simp add: Cons nv ne r)
        have dom: "dom (map_of d') = dom (map_of d)"
          using relax_keys[of "fst cur" "insert (fst cur) vis" "neighbors_of adj (fst cur)" d p q'] r
          by (simp add: dom_map_of_conv_image_fst)
        from "1.IH"(2)[OF Cons nv ne r[symmetric] refl search_inv_expand[OF inv Cons nv ne r]]
          res dom
        show ?thesis by simp
      qed
    qed
  qed
qed

text \<open>The initial maps.\<close>

lemma map_of_fold_update:
  "map_of (fold (\<lambda>n. AList.update (f n) v) ns acc) k
     = (if k \<in> f ` set ns then Some v else map_of acc k)"
  by (induction ns arbitrary: acc) (auto simp: update_conv')

lemma search_inv_init:
  "search_inv adj s e [(s, 0)] {}
     (AList.update s (Finite 0) (fold (\<lambda>n. AList.update (node_id n) Infinity) ns []))
     (fold (\<lambda>n. AList.update (node_id n) None) ns [])"
proof -
  define d0 where "d0 = AList.update s (Finite 0) (fold (\<lambda>n. AList.update (node_id n) Infinity) ns [])"
  define p0 :: previous where "p0 = fold (\<lambda>n. AList.update (node_id n) None) ns []"
  have disc: "discovered d0 n \<longleftrightarrow> n = s" for n
    by (auto simp: discovered_def d0_def update_conv' map_of_fold_update)
  have prev: "prev_of p0 n = None" for n
    by (simp add: prev_of_def p0_def map_of_fold_update)
  have "search_inv adj s e [(s, 0)] {} d0 p0"
    by (rule invI) (simp_all add: disc prev)
  then show ?thesis by (simp add: d0_def p0_def)
qed

lemma dom_init:
  "dom (map_of (AList.update s (Finite 0) (fold (\<lambda>n. AList.update (node_id n) Infinity) ns [])))
     = insert s (node_id ` set ns)"
  by (auto simp: update_conv' map_of_fold_update split: if_splits)

lemma nodeMap_None: "nodeMap ns k = None \<longleftrightarrow> k \<notin> node_id ` set ns"
  by (simp add: nodeMap_def map_of_eq_None_iff image_image)

lemma path_coordinates_Some:
  "set l \<subseteq> node_id ` set ns \<Longrightarrow> \<exists>cs. path_coordinates (nodeMap ns) l = Some cs"
proof (induction l)
  case Nil
  show ?case by (simp add: path_coordinates_def)
next
  case (Cons a l)
  then obtain cs where cs: "path_coordinates (nodeMap ns) l = Some cs" by auto
  from Cons.prems have "nodeMap ns a \<noteq> None" by (simp add: nodeMap_None)
  then obtain n where "nodeMap ns a = Some n" by auto
  with cs show ?case by (simp add: path_coordinates_def)
qed

lemma neighbors_of_push:
  "neighbors_of (push_adjacent adj k v) u
     = (if u = k then neighbors_of adj k @ [v] else neighbors_of adj u)"
  by (simp add: neighbors_of_def push_adjacent_def split: option.split)

lemma neighbors_of_fold:
  "fst ` set (neighbors_of
      (fold (\<lambda>e adj. push_adjacent (push_adjacent adj (edge_from e) (edge_to e, weight e))
                                   (edge_to e) (edge_from e, weight e)) es adj) u)
     = fst ` set (neighbors_of adj u)
       \<union> {v. \<exists>e \<in> set es. (edge_from e = u \<and> edge_to e = v) \<or> (edge_from e = v \<and> edge_to e = u)}"
proof (induction es arbitrary: adj)
  case Nil
  show ?case by simp
next
  case (Cons a es)
  show ?case
    by (simp add: Cons.IH neighbors_of_push) blast
qed

lemma neighbors_of_empty: "neighbors_of Map.empty u = []"
  by (simp add: neighbors_of_def)

lemma wstep_adjacent:
  "wstep (buildAdjacencyList (graph_edges g)) N = (\<lambda>u v. adjacent g u v \<and> v \<in> N)"
  by (auto simp: wstep_def adjacent_def buildAdjacencyList_def neighbors_of_fold neighbors_of_empty
           fun_eq_iff)

text \<open>
  \<^verbatim>\<open>findShortestPath\<close> always returns and never throws. When it returns a path, the two
  nodes are connected and the path runs from the start to the destination.
\<close>

lemma findShortestPath_returns:
  "\<exists>out v. findShortestPath g a b = Some (out, Returned v)
      \<and> (\<forall>r. v = Some r \<longrightarrow>
            connected g a b \<and> path r \<noteq> [] \<and> hd (path r) = a \<and> last (path r) = b)"
proof -
  define ns where "ns = graph_nodes g"
  define ids where "ids = node_id ` set ns"
  show ?thesis
  proof (cases "a \<in> ids \<and> b \<in> ids")
    case False
    then have "nodeMap ns a = None \<or> nodeMap ns b = None"
      by (auto simp: nodeMap_None ids_def)
    then have "findShortestPath g a b = Some ([''Invalid start or end node''], Returned None)"
      by (auto simp: findShortestPath_def ns_def)
    then show ?thesis by simp
  next
    case True
    define adj where "adj = buildAdjacencyList (graph_edges g)"
    define d0 where "d0 = AList.update a (Finite 0) (fold (\<lambda>n. AList.update (node_id n) Infinity) ns [])"
    define p0 :: previous where "p0 = fold (\<lambda>n. AList.update (node_id n) None) ns []"
    define p' where "p' = dijkstra_loop adj b [(a, 0)] {} d0 p0"
    have dom: "dom (map_of d0) = ids" using True by (auto simp: d0_def dom_init ids_def)
    have valid: "nodeMap ns a \<noteq> None" "nodeMap ns b \<noteq> None"
      using True by (simp_all add: nodeMap_None ids_def)
    have unfold: "findShortestPath g a b =
        (case reconstruct p' (Some b) [] of
           None \<Rightarrow> None
         | Some [] \<Rightarrow> Some ([''No path found between nodes''], Returned None)
         | Some (first # rest) \<Rightarrow>
             if first \<noteq> a then Some ([''No path found between nodes''], Returned None)
             else (case path_coordinates (nodeMap ns) (first # rest) of
                     None \<Rightarrow> Some ([], Thrown ''TypeError'')
                   | Some cs \<Rightarrow> Some ([], Returned (Some \<lparr>path = first # rest, coordinates = cs\<rparr>))))"
    proof -
      have nv: "\<not> (nodeMap (graph_nodes g) a = None \<or> nodeMap (graph_nodes g) b = None)"
        using valid by (simp add: ns_def)
      show ?thesis
        unfolding findShortestPath_def p'_def d0_def p0_def adj_def ns_def
        by (subst if_not_P[OF nv]) (rule refl)
    qed
    have inv: "search_inv adj a b [(a, 0)] {} d0 p0"
      unfolding d0_def p0_def by (rule search_inv_init)
    from dijkstra_loop_post[OF inv]
    show ?thesis
    proof
      assume "(wstep adj (dom (map_of d0)))\<^sup>*\<^sup>* a b
            \<and> (\<exists>l. walk (dijkstra_loop adj b [(a, 0)] {} d0 p0) a b l \<and> set l \<subseteq> dom (map_of d0))"
      then obtain l where reach: "(wstep adj ids)\<^sup>*\<^sup>* a b"
        and l: "walk p' a b l" "set l \<subseteq> ids" by (auto simp: p'_def dom)
      have conn: "connected g a b"
        using reach True by (simp add: connected_def adj_def wstep_adjacent ids_def ns_def)
      from walk_ends[OF l(1)] have ends: "l \<noteq> []" "hd l = a" "last l = b" by simp_all
      then obtain rest where lr: "l = a # rest" by (cases l) auto
      from walk_reconstruct[OF l(1), of "[]"] have rec: "reconstruct p' (Some b) [] = Some (a # rest)"
        by (simp add: lr)
      from path_coordinates_Some[of l ns] l(2) obtain cs where
        cs: "path_coordinates (nodeMap ns) (a # rest) = Some cs" by (auto simp: ids_def lr)
      have "findShortestPath g a b = Some ([], Returned (Some \<lparr>path = l, coordinates = cs\<rparr>))"
        using unfold rec cs by (simp add: lr)
      with conn ends show ?thesis by simp
    next
      assume "b \<noteq> a \<and> prev_of (dijkstra_loop adj b [(a, 0)] {} d0 p0) b = None"
      then have ab: "b \<noteq> a" and "prev_of p' b = None" by (simp_all add: p'_def)
      then have "walk p' b b [b]" by (intro walk_start)
      from walk_reconstruct[OF this, of "[]"] have rec: "reconstruct p' (Some b) [] = Some [b]"
        by simp
      have "findShortestPath g a b = Some ([''No path found between nodes''], Returned None)"
        using unfold rec ab by simp
      then show ?thesis by simp
    qed
  qed
qed

lemma findShortestPath_not_connected:
  assumes "\<not> connected g a b"
  shows "\<exists>out. findShortestPath g a b = Some (out, Returned None)"
proof -
  from findShortestPath_returns[of g a b] obtain out v where
    r: "findShortestPath g a b = Some (out, Returned v)"
    and c: "\<forall>r. v = Some r \<longrightarrow> connected g a b" by blast
  from c assms have "v = None" by (cases v) auto
  with r show ?thesis by blast
qed

text \<open>A node that touches no edge is connected to no other node.\<close>

lemma not_connected_isolated:
  assumes "\<not> (\<exists>x \<in> set (graph_edges g). edge_from x = b \<or> edge_to x = b)" and "a \<noteq> b"
  shows "\<not> connected g a b"
proof
  assume "connected g a b"
  then have "(\<lambda>u v. adjacent g u v \<and> v \<in> node_id ` set (graph_nodes g))\<^sup>*\<^sup>* a b"
    by (simp add: connected_def)
  with assms(2) obtain u where "adjacent g u b" by (auto elim: rtranclp.cases)
  with assms(1) show False by (auto simp: adjacent_def)
qed

section \<open>Reverse directions by construction\<close>

text \<open>
  Where the code derives the reverse direction itself, it is exact. A key whose reverse
  key is not in the table (and is the reverse of no other key's roads) gets the reversed
  road list, and the entries already there stay.
\<close>

lemma map_of_assign:
  "map_of (fold (\<lambda>(k, v). AList.update k v) xs ps) k
     = (case map_of (rev xs) k of Some v \<Rightarrow> Some v | None \<Rightarrow> map_of ps k)"
proof (induction xs arbitrary: ps)
  case Nil
  show ?case by simp
next
  case (Cons x xs)
  obtain kx vx where x: "x = (kx, vx)" by (cases x)
  show ?case
    by (simp add: x Cons.IH update_conv' map_add_def split: option.split)
qed

lemma map_of_rev_distinct:
  "distinct (map fst xs) \<Longrightarrow> map_of (rev xs) k = map_of xs k"
proof (induction xs)
  case Nil
  show ?case by simp
next
  case (Cons x xs)
  obtain kx vx where x: "x = (kx, vx)" by (cases x)
  from Cons.prems x have "map_of xs kx = None"
    by (simp add: map_of_eq_None_iff)
  with Cons show ?case by (auto simp: x map_add_def split: option.split)
qed

lemma reverse_fold_distinct:
  "distinct (map fst acc) \<Longrightarrow>
   distinct (map fst (fold (\<lambda>(key, rds) acc. if has_route ps (reverseKey key) then acc
                                  else AList.update (reverseKey key) (rev rds) acc) rs acc))"
proof (induction rs arbitrary: acc)
  case Nil
  then show ?case by simp
next
  case (Cons x rs)
  obtain kx vx where x: "x = (kx, vx)" by (cases x)
  show ?case unfolding x using Cons.prems
    by (auto intro!: Cons.IH simp: distinct_update)
qed

lemma reverse_fold_lookup:
  assumes "\<And>key' rds'. (key', rds') \<in> set rs \<Longrightarrow> reverseKey key' = k \<Longrightarrow> rds' = rds"
  shows "map_of (fold (\<lambda>(key, rds) acc. if has_route ps (reverseKey key) then acc
                                  else AList.update (reverseKey key) (rev rds) acc) rs acc) k
     = (if \<not> has_route ps k \<and> k \<in> reverseKey ` fst ` set rs then Some (rev rds)
        else map_of acc k)"
  using assms
proof (induction rs arbitrary: acc)
  case Nil
  show ?case by simp
next
  case (Cons x rs)
  obtain kx vx where x: "x = (kx, vx)" by (cases x)
  have same: "reverseKey kx = k \<Longrightarrow> vx = rds" using Cons.prems[of kx vx] by (simp add: x)
  have rest: "rds' = rds" if "(key', rds') \<in> set rs" "reverseKey key' = k" for key' rds'
    using Cons.prems[of key' rds'] that by simp
  show ?case unfolding x using same
    by (auto simp: Cons.IH[OF rest] update_conv')
qed

lemma generateReverseRoutes_reversed:
  assumes "(key, rds) \<in> set rs"
    and "\<not> has_route rs (reverseKey key)"
    and "\<And>key' rds'. (key', rds') \<in> set rs \<Longrightarrow> reverseKey key' = reverseKey key \<Longrightarrow> rds' = rds"
  shows "map_of (generateReverseRoutes rs) (reverseKey key) = Some (rev rds)"
proof -
  have d: "distinct (map fst (reverseRoutes rs))"
    unfolding reverseRoutes_def by (rule reverse_fold_distinct) simp
  have "map_of (reverseRoutes rs) (reverseKey key) = Some (rev rds)"
    unfolding reverseRoutes_def
    using assms(1,2) by (subst reverse_fold_lookup[OF assms(3)]) force+
  then have "map_of (rev (reverseRoutes rs)) (reverseKey key) = Some (rev rds)"
    using d by (simp add: map_of_rev_distinct)
  then show ?thesis by (simp add: generateReverseRoutes_def map_of_assign)
qed

lemma generateReverseRoutes_keeps:
  assumes "map_of rs k = Some rds"
  shows "map_of (generateReverseRoutes rs) k = Some rds"
proof -
  have "map_of (reverseRoutes rs) k = None"
  proof -
    have "has_route rs k" using assms by (auto simp: has_route_def)
    have "map_of (fold (\<lambda>(key, rds) acc. if has_route rs (reverseKey key) then acc
                                  else AList.update (reverseKey key) (rev rds) acc) xs acc) k
            = map_of acc k" for xs acc
    proof (induction xs arbitrary: acc)
      case Nil
      show ?case by simp
    next
      case (Cons x xs)
      obtain kx vx where x: "x = (kx, vx)" by (cases x)
      show ?case unfolding x using \<open>has_route rs k\<close> by (auto simp: Cons.IH update_conv')
    qed
    from this[of rs "[]"] show ?thesis by (simp add: reverseRoutes_def)
  qed
  moreover have "distinct (map fst (reverseRoutes rs))"
    unfolding reverseRoutes_def by (rule reverse_fold_distinct) simp
  ultimately have "map_of (rev (reverseRoutes rs)) k = None"
    by (simp add: map_of_rev_distinct)
  with assms show ?thesis by (simp add: generateReverseRoutes_def map_of_assign)
qed

text \<open>The adjacency list of the weighted solver holds every edge in both directions with one weight.\<close>

lemma neighbors_of_fold_mem:
  "(v, w) \<in> set (neighbors_of
      (fold (\<lambda>e adj. push_adjacent (push_adjacent adj (edge_from e) (edge_to e, weight e))
                                   (edge_to e) (edge_from e, weight e)) es adj) u)
     \<longleftrightarrow> (v, w) \<in> set (neighbors_of adj u)
        \<or> (\<exists>e \<in> set es. weight e = w
               \<and> ((edge_from e = u \<and> edge_to e = v) \<or> (edge_from e = v \<and> edge_to e = u)))"
proof (induction es arbitrary: adj)
  case Nil
  show ?case by simp
next
  case (Cons a es)
  show ?case
    by (auto simp: Cons.IH neighbors_of_push)
qed

lemma buildAdjacencyList_symmetric:
  "(v, w) \<in> set (neighbors_of (buildAdjacencyList es) u)
     \<longleftrightarrow> (u, w) \<in> set (neighbors_of (buildAdjacencyList es) v)"
  unfolding buildAdjacencyList_def neighbors_of_fold_mem
  by (auto simp: neighbors_of_empty)

section \<open>Properties of the breadth-first solver\<close>

lemmas campus_eval =
  findPath_def has_entry_def entries_def campusGraph_def object_prototype_names_def

text \<open>
  C4. For a block id \<open>X\<close> that is a key of the graph, \<^verbatim>\<open>findPath(X, X)\<close> returns the
  zero-length path \<^verbatim>\<open>{ roads: [], nodes: [X] }\<close> and writes nothing to the console. The
  answer comes from the first statement of the function, before the graph is consulted:
  it is the answer the call gives on the empty graph, where no search can find anything.
\<close>

theorem findPath_same_valid:
  assumes "X \<in> fst ` set g"
  shows "findPath g X X = ([], Some \<lparr>roads = [], nodes = [X]\<rparr>)
       \<and> findPath g X X = findPath [] X X"
  by (simp add: findPath_def)

theorem findPath_same_valid_witness:
  "''block_admin'' \<in> fst ` set campusGraph
   \<and> findPath campusGraph ''block_admin'' ''block_admin''
       = ([], Some \<lparr>roads = [], nodes = [''block_admin'']\<rparr>)
   \<and> findPath campusGraph ''block_admin'' ''block_admin'' = findPath [] ''block_admin'' ''block_admin''"
proof -
  have h: "''block_admin'' \<in> fst ` set campusGraph"
    by (simp add: campusGraph_def)
  from findPath_same_valid[OF h] h show ?thesis by blast
qed

text \<open>
  C10. The equal-endpoints test precedes the membership test: for every identifier \<open>X\<close>
  and every graph, also one that has no entry for \<open>X\<close>, \<^verbatim>\<open>findPath(X, X)\<close> returns
  \<^verbatim>\<open>{ roads: [], nodes: [X] }\<close> and not the node-not-found outcome (a warning and \<^verbatim>\<open>null\<close>).
\<close>

theorem findPath_same_any:
  "findPath g X X = ([], Some \<lparr>roads = [], nodes = [X]\<rparr>)
   \<and> findPath g X X \<noteq> ([''Node not in graph: '' @ X], None)"
  by (simp add: findPath_def)

text \<open>
  The membership test of \<^verbatim>\<open>findPath\<close> on a start id that is neither a key of the graph nor a
  name inherited from \<^verbatim>\<open>Object.prototype\<close>: the warning is written and \<^verbatim>\<open>null\<close> returned.
\<close>

lemma findPath_absent_start:
  assumes "s \<notin> fst ` set g" and "s \<notin> set object_prototype_names" and "s \<noteq> e"
  shows "findPath g s e = ([''Node not in graph: '' @ s], None)"
proof -
  from assms(1) have "map_of g s = None" by (simp add: map_of_eq_None_iff)
  then have "\<not> has_entry g s" using assms(2) by (auto simp: has_entry_def)
  with assms(3) show ?thesis by (simp add: findPath_def)
qed


text \<open>
  C6. \<^verbatim>\<open>campusGraph\<close> is written by hand in both directions. Its edge from
  \<^verbatim>\<open>block_north_square\<close> to \<^verbatim>\<open>block_e_hostel\<close> carries the road list \<^verbatim>\<open>[road_aavin]\<close>, and a
  request in that direction highlights exactly it. The request in the opposite direction
  uses the opposite entry, which is not the reversed list: it highlights
  \<^verbatim>\<open>[road_aavin, road_ab3_to_north_square]\<close>.
\<close>

theorem campusGraph_reverse_mismatch:
  "map_of (entries campusGraph ''block_north_square'') ''block_e_hostel'' = Some [''road_aavin'']
   \<and> findPath campusGraph ''block_north_square'' ''block_e_hostel''
       = ([], Some \<lparr>roads = [''road_aavin''],
                      nodes = [''block_north_square'', ''block_e_hostel'']\<rparr>)
   \<and> findPath campusGraph ''block_e_hostel'' ''block_north_square''
       = ([], Some \<lparr>roads = [''road_aavin'', ''road_ab3_to_north_square''],
                      nodes = [''block_e_hostel'', ''block_north_square'']\<rparr>)"
  by (simp add: campus_eval)

section \<open>Properties of the weighted solver\<close>

lemmas dijkstra_eval =
  findShortestPath_def nodeMap_def buildAdjacencyList_def push_adjacent_def neighbors_of_def
  path_coordinates_def reconstruct.simps prev_of_def dijkstra_loop.simps

text \<open>
  C1. The graph has the three nodes \<open>A\<close>, \<open>B\<close>, \<open>C\<close> (distinct ids, listed in any order) and
  exactly two edges, \<open>A\<close>-\<open>B\<close> of weight 3 and \<open>B\<close>-\<open>C\<close> of weight 4, each written in either
  direction and in either order. Then \<^verbatim>\<open>findShortestPath(graph, A, C)\<close> returns the path
  \<open>[A, B, C]\<close> with the coordinates of \<open>A\<close>, \<open>B\<close>, \<open>C\<close> in that order, and logs nothing.
\<close>

theorem findShortestPath_three_nodes:
  assumes d: "distinct [node_id A, node_id B, node_id C]"
    and ns: "ns \<in> {[A, B, C], [A, C, B], [B, A, C], [B, C, A], [C, A, B], [C, B, A]}"
    and ab: "(u, v) = (node_id A, node_id B) \<or> (u, v) = (node_id B, node_id A)"
    and bc: "(u', v') = (node_id B, node_id C) \<or> (u', v') = (node_id C, node_id B)"
    and es: "es = [\<lparr>edge_from = u, edge_to = v, weight = 3\<rparr>, \<lparr>edge_from = u', edge_to = v', weight = 4\<rparr>]
           \<or> es = [\<lparr>edge_from = u', edge_to = v', weight = 4\<rparr>, \<lparr>edge_from = u, edge_to = v, weight = 3\<rparr>]"
  shows "findShortestPath \<lparr>graph_nodes = ns, graph_edges = es\<rparr> (node_id A) (node_id C)
         = Some ([], Returned (Some \<lparr>path = [node_id A, node_id B, node_id C],
                     coordinates = [(node_x A, node_y A), (node_x B, node_y B), (node_x C, node_y C)]\<rparr>))"
proof -
  from d have ne: "node_id A \<noteq> node_id B" "node_id B \<noteq> node_id A" "node_id A \<noteq> node_id C"
    "node_id C \<noteq> node_id A" "node_id B \<noteq> node_id C" "node_id C \<noteq> node_id B" by auto
  from ns have ns': "ns = [A, B, C] \<or> ns = [A, C, B] \<or> ns = [B, A, C] \<or> ns = [B, C, A] \<or> ns = [C, A, B] \<or> ns = [C, B, A]" by simp
  from ns' ab bc es show ?thesis
    by (elim disjE) (simp_all add: dijkstra_eval ne)
qed

theorem findShortestPath_three_nodes_witness:
  "findShortestPath
     \<lparr>graph_nodes = [nodeA, nodeB, nodeC],
      graph_edges = [\<lparr>edge_from = ''A'', edge_to = ''B'', weight = 3\<rparr>,
                     \<lparr>edge_from = ''B'', edge_to = ''C'', weight = 4\<rparr>]\<rparr> ''A'' ''C''
   = Some ([], Returned (Some \<lparr>path = [''A'', ''B'', ''C''], coordinates = [(0, 0), (3, 0), (3, 4)]\<rparr>))"
  using findShortestPath_three_nodes[of nodeA nodeB nodeC "[nodeA, nodeB, nodeC]" "''A''" "''B''" "''B''" "''C''"
     "[\<lparr>edge_from = ''A'', edge_to = ''B'', weight = 3\<rparr>, \<lparr>edge_from = ''B'', edge_to = ''C'', weight = 4\<rparr>]"]
  by (simp add: nodeA_def nodeB_def nodeC_def)

section \<open>Properties of both solvers\<close>

text \<open>
  Every path a solver returns runs from the requested start to the requested end, and
  the breadth-first solver returns a path whenever a route leads from the start to the
  end along the neighbour tables as they are written.
\<close>

lemma returned_path_endpoints:
  "(findPath bg s e = (out, Some r) \<longrightarrow>
      nodes r \<noteq> [] \<and> hd (nodes r) = s \<and> last (nodes r) = e)
   \<and> (findShortestPath g a b = Some (out', Returned (Some r')) \<longrightarrow>
      path r' \<noteq> [] \<and> hd (path r') = a \<and> last (path r') = b)"
proof (rule conjI)
  show "findPath bg s e = (out, Some r) \<longrightarrow>
          nodes r \<noteq> [] \<and> hd (nodes r) = s \<and> last (nodes r) = e"
  proof
    assume f: "findPath bg s e = (out, Some r)"
    have "route bg s e"
    proof (rule ccontr)
      assume "\<not> route bg s e"
      from findPath_no_route[OF this] f show False by simp
    qed
    from findPath_route[OF this] f
    show "nodes r \<noteq> [] \<and> hd (nodes r) = s \<and> last (nodes r) = e" by auto
  qed
  show "findShortestPath g a b = Some (out', Returned (Some r')) \<longrightarrow>
          path r' \<noteq> [] \<and> hd (path r') = a \<and> last (path r') = b"
    using findShortestPath_returns[of g a b] by auto
qed

text \<open>
  C2. In \<^verbatim>\<open>campusGraph\<close> the blocks \<^verbatim>\<open>block_c_hostel\<close> and \<^verbatim>\<open>block_health_centre\<close> are joined
  by an edge: the table of \<^verbatim>\<open>block_c_hostel\<close> lists \<^verbatim>\<open>block_health_centre\<close> with the road
  \<^verbatim>\<open>road_central_junction\<close>, and the request in that direction returns the two-node path.
  The table of \<^verbatim>\<open>block_health_centre\<close> does not list \<^verbatim>\<open>block_c_hostel\<close>, nor does any other
  table, and the request in the opposite direction returns \<^verbatim>\<open>null\<close>: for this connected
  pair no path comes back at all.
\<close>

theorem findPath_one_way_edge_null:
  "map_of (entries campusGraph ''block_c_hostel'') ''block_health_centre''
     = Some [''road_central_junction'']
   \<and> findPath campusGraph ''block_c_hostel'' ''block_health_centre''
       = ([], Some \<lparr>roads = [''road_central_junction''],
                      nodes = [''block_c_hostel'', ''block_health_centre'']\<rparr>)
   \<and> findPath campusGraph ''block_health_centre'' ''block_c_hostel'' = ([], None)"
proof -
  have 1: "map_of (entries campusGraph ''block_c_hostel'') ''block_health_centre''
             = Some [''road_central_junction'']"
    by (simp add: entries_def campusGraph_def)
  have 2: "findPath campusGraph ''block_c_hostel'' ''block_health_centre''
       = ([], Some \<lparr>roads = [''road_central_junction''],
                      nodes = [''block_c_hostel'', ''block_health_centre'']\<rparr>)"
    by (simp add: campus_eval)
  have "\<not> route campusGraph ''block_health_centre'' ''block_c_hostel''"
    by (rule no_route_to_unlisted) (simp_all add: neighbour_ids_def campusGraph_def)
  moreover have "map_of campusGraph ''block_health_centre'' \<noteq> None"
    by (simp add: campusGraph_def)
  ultimately have 3: "findPath campusGraph ''block_health_centre'' ''block_c_hostel'' = ([], None)"
    by (rule findPath_silent_no_route[rotated])
  from 1 2 3 show ?thesis by (intro conjI)
qed

text \<open>
  C3. When no route leads from the first block to the second, \<^verbatim>\<open>findPath\<close> returns
  \<^verbatim>\<open>null\<close>. When the two nodes are not connected, \<^verbatim>\<open>findShortestPath\<close> returns: the
  reconstruction loop ends, nothing is thrown, and the value is \<^verbatim>\<open>null\<close>.
\<close>

theorem solvers_no_route_null:
  "(\<not> route bg s e \<longrightarrow> snd (findPath bg s e) = None)
   \<and> (\<not> connected g a b \<longrightarrow> (\<exists>out. findShortestPath g a b = Some (out, Returned None)))"
  using findPath_no_route[of bg s e] findShortestPath_not_connected[of g a b] by blast

text \<open>
  Two pairs without a route: no neighbour table of the campus graph lists
  \<^verbatim>\<open>block_c_hostel\<close>, and in \<open>triangle_cut\<close> the node \<open>C\<close> touches no edge.
\<close>

theorem solvers_no_route_null_witness:
  "\<not> route campusGraph ''block_admin'' ''block_c_hostel''
   \<and> snd (findPath campusGraph ''block_admin'' ''block_c_hostel'') = None
   \<and> \<not> connected triangle_cut ''A'' ''C''
   \<and> (\<exists>out. findShortestPath triangle_cut ''A'' ''C'' = Some (out, Returned None))"
proof -
  have 1: "\<not> route campusGraph ''block_admin'' ''block_c_hostel''"
    by (rule no_route_to_unlisted) (simp_all add: neighbour_ids_def campusGraph_def)
  have 2: "\<not> connected triangle_cut ''A'' ''C''"
    by (rule not_connected_isolated) (simp_all add: triangle_cut_def)
  note t = solvers_no_route_null[of campusGraph "''block_admin''" "''block_c_hostel''"
             triangle_cut "''A''" "''C''"]
  from t[THEN conjunct1, rule_format, OF 1] t[THEN conjunct2, rule_format, OF 2] 1 2
  show ?thesis by (intro conjI)
qed

section \<open>Properties of the route request handler\<close>

text \<open>
  C5, as the code has it. Let \<open>A\<close> and \<open>B\<close> be the nodes found for two different ids \<open>a\<close> and
  \<open>b\<close>, where the parent (\<^verbatim>\<open>blockId\<close>) of \<open>B\<close> is \<open>a\<close>, or the parent of \<open>A\<close> is \<open>b\<close>, or both
  have the same non-empty parent. Then the request ends in the same-building outcome:
  the message is set, no path is stored, both nodes are selected. The solver is not
  consulted: the outcome is the same whatever the edges of the graph are.
\<close>

theorem handleNavigate_same_building:
  assumes "find (\<lambda>n. node_id n = a) (graph_nodes g) = Some A"
    and "find (\<lambda>n. node_id n = b) (graph_nodes g) = Some B"
    and "a \<noteq> b"
    and "blockId B = Some a \<or> blockId A = Some b
         \<or> (\<exists>k. k \<noteq> [] \<and> blockId A = Some k \<and> blockId B = Some k)"
  shows "handleNavigate (Some g) a b st
         = Some ([], Returned (st\<lparr>isCalculating := False,
                                  navigationError := Some (same_building_message B),
                                  pathResult := None,
                                  selectedStart := Some A,
                                  selectedEnd := Some B\<rparr>))
       \<and> handleNavigate (Some (g\<lparr>graph_edges := es\<rparr>)) a b st = handleNavigate (Some g) a b st"
proof -
  from assms(4) have c: "isStartInBlock A b \<or> isEndInBlock B a \<or> areInSameBlock A B"
    by (auto simp: isStartInBlock_def isEndInBlock_def areInSameBlock_def truthy_def)
  then show ?thesis using assms(1-3) by (simp add: handleNavigate_def)
qed

text \<open>
  In \<open>library_graph\<close> the solver does find a path from the library to its reading room,
  and the request still ends in the same-building outcome.
\<close>

theorem handleNavigate_same_building_witness:
  "findShortestPath library_graph ''library'' ''reading_room''
     = Some ([], Returned (Some \<lparr>path = [''library'', ''reading_room''],
                                coordinates = [(10, 20), (10, 21)]\<rparr>))
   \<and> handleNavigate (Some library_graph) ''library'' ''reading_room'' idle
     = Some ([], Returned (idle\<lparr>navigationError :=
                 Some ''Hey, it's in the same building that you're in, just in the 2nd floor'',
               selectedStart := Some library, selectedEnd := Some reading_room\<rparr>))"
proof -
  have 1: "find (\<lambda>n. node_id n = ''library'') (graph_nodes library_graph) = Some library"
    by (simp add: library_graph_def library_def)
  have 2: "find (\<lambda>n. node_id n = ''reading_room'') (graph_nodes library_graph) = Some reading_room"
    by (simp add: library_graph_def library_def reading_room_def)
  have 3: "''library'' \<noteq> ''reading_room''" by simp
  have 4: "blockId reading_room = Some ''library'' \<or> blockId library = Some ''reading_room''
         \<or> (\<exists>k. k \<noteq> [] \<and> blockId library = Some k \<and> blockId reading_room = Some k)"
    by (simp add: reading_room_def)
  have 5: "findShortestPath library_graph ''library'' ''reading_room''
     = Some ([], Returned (Some \<lparr>path = [''library'', ''reading_room''],
                                coordinates = [(10, 20), (10, 21)]\<rparr>))"
    by (simp add: dijkstra_eval library_graph_def library_def reading_room_def)
  from handleNavigate_same_building[OF 1 2 3 4, of idle] 5 show ?thesis
    by (simp add: same_building_message_def floorInfo_def reading_room_def idle_def)
qed

text \<open>
  C5, as stated, fails when \<open>A\<close> and \<open>B\<close> are one node with a parent: the node shares its
  non-null parent with itself, yet the equal-endpoints test comes first and the outcome
  is the already-there message.
\<close>

theorem handleNavigate_same_node_counterexample:
  "areInSameBlock reading_room reading_room
   \<and> handleNavigate (Some library_graph) ''reading_room'' ''reading_room'' idle
     = Some ([], Returned (idle\<lparr>navigationError := Some ''Bruh, you're already at Reading Room''\<rparr>))"
  by (simp add: handleNavigate_def areInSameBlock_def truthy_def library_graph_def library_def
        reading_room_def idle_def)

text \<open>
  The shared parent must be truthy: two different nodes whose \<^verbatim>\<open>blockId\<close> is the empty
  string are not in the same block for the handler, and the request goes to the solver.
\<close>

lemma handleNavigate_empty_parent:
  "blockId annex_a = blockId annex_b
   \<and> handleNavigate
         (Some \<lparr>graph_nodes = [annex_a, annex_b],
                graph_edges = [\<lparr>edge_from = ''annex_a'', edge_to = ''annex_b'', weight = 5\<rparr>]\<rparr>)
         ''annex_a'' ''annex_b'' idle
     = Some ([], Returned (idle\<lparr>pathResult :=
                 Some \<lparr>path = [''annex_a'', ''annex_b''], coordinates = [(0, 0), (5, 0)]\<rparr>,
               selectedStart := Some annex_a, selectedEnd := Some annex_b\<rparr>))"
  by (simp add: handleNavigate_def isStartInBlock_def isEndInBlock_def areInSameBlock_def
        truthy_def dijkstra_eval annex_a_def annex_b_def idle_def)

section \<open>Properties of the nearest-node lookup\<close>

text \<open>
  C9, as the code has it. With no node at all the loop body never runs: for every
  coordinate (and whatever the distance function) \<^verbatim>\<open>findNearestNode\<close> returns the object
  \<^verbatim>\<open>{ nodeId: null, node: null, distance: Infinity }\<close> and writes nothing to the console.
  It names no node and it does not throw, and it signals no error.
\<close>

theorem findNearestNode_empty:
  "findNearestNode hav [] la lo = ([], \<lparr>nodeId = None, node = None, distance = Infinity\<rparr>)
   \<and> \<not> signals_error (findNearestNode hav [] la lo)"
  by (simp add: findNearestNode_def signals_error_def)

text \<open>
  C9, as stated, fails: at the coordinate (0, 0) of the empty graph the call completes
  with an ordinary result object and signals no error.
\<close>

theorem findNearestNode_empty_no_error:
  "findNearestNode (\<lambda>lat1 lng1 lat2 lng2. 0) [] 0 0
     = ([], \<lparr>nodeId = None, node = None, distance = Infinity\<rparr>)
   \<and> \<not> signals_error (findNearestNode (\<lambda>lat1 lng1 lat2 lng2. 0) [] 0 0)"
  by (simp add: findNearestNode_def signals_error_def)

end
